theory Spec2Isabelle
  imports Main "HOL-Library.Word"
begin

unbundle bit_operations_syntax

section \<open>Configuration and shared types\<close>

text \<open>
  The primitive assembler of \<^verbatim>\<open>pa.h\<close> works on batches of \<^verbatim>\<open>KNOB_SIMD_WIDTH\<close>
  vertices. The file fixes the width to 8: \<^verbatim>\<open>ComputeOffsets\<close> shifts by 3 and masks
  with 7, and \<^verbatim>\<open>PA_TESS::Assemble\<close> has a \<^verbatim>\<open>static_assert(KNOB_SIMD_WIDTH == 8)\<close>.
\<close>

definition KNOB_SIMD_WIDTH :: nat where
  "KNOB_SIMD_WIDTH = 8"

text \<open>
  Modelled from the spec: the constant \<^verbatim>\<open>MAX_NUM_VERTS_PER_PRIM\<close> is declared in a
  header that is not part of the sources. The spec gives the size of the vertex window
  as "at most the max vertex count of any supported primitive, including adjacency,
  e.g. 6"; the handlers of \<^verbatim>\<open>pa.h\<close> use the slots 0 to 5.
\<close>

definition MAX_NUM_VERTS_PER_PRIM :: nat where
  "MAX_NUM_VERTS_PER_PRIM = 6"

text \<open>Unsigned 32-bit wrap-around of a natural number.\<close>

definition u32 :: "nat \<Rightarrow> nat" where
  "u32 x = x mod 2 ^ 32"

text \<open>
  The topologies named in \<^verbatim>\<open>pa.h\<close>. The enumeration itself lives in another header;
  \<open>TOP_UNKNOWN\<close> stands for every topology the cut-aware assembler does not implement.
\<close>

datatype PRIMITIVE_TOPOLOGY =
    TOP_UNKNOWN
  | TOP_POINT_LIST
  | TOP_LINE_LIST
  | TOP_LINE_STRIP
  | TOP_TRIANGLE_LIST
  | TOP_TRIANGLE_STRIP
  | TOP_LINE_LIST_ADJ
  | TOP_LISTSTRIP_ADJ
  | TOP_TRI_LIST_ADJ
  | TOP_TRI_STRIP_ADJ

text \<open>
  Failures of the C++ made explicit: a store outside an array, a division by zero and a
  failed \<^verbatim>\<open>SWR_ASSERT\<close>/\<^verbatim>\<open>assert\<close>.
\<close>

datatype error = OutOfBounds | DivideByZero | AssertFailure

definition bindE :: "error + 'a \<Rightarrow> ('a \<Rightarrow> error + 'b) \<Rightarrow> error + 'b" where
  "bindE m f = (case m of Inl e \<Rightarrow> Inl e | Inr x \<Rightarrow> f x)"

text \<open>
  Modelled from the spec: \<^verbatim>\<open>NumVertsPerPrim(topology, includeAdjVerts)\<close> is defined
  outside \<^verbatim>\<open>pa.h\<close>. Points have 1 vertex, lines 2, triangles 3; the adjacency
  topologies have 4 (lines) and 6 (triangles) when the adjacent vertices are forwarded
  to a geometry stage, and the vertex count of their core primitive otherwise.
\<close>

fun NumVertsPerPrim :: "PRIMITIVE_TOPOLOGY \<Rightarrow> bool \<Rightarrow> nat" where
  "NumVertsPerPrim TOP_POINT_LIST gs = 1"
| "NumVertsPerPrim TOP_LINE_LIST gs = 2"
| "NumVertsPerPrim TOP_LINE_STRIP gs = 2"
| "NumVertsPerPrim TOP_LINE_LIST_ADJ gs = (if gs then 4 else 2)"
| "NumVertsPerPrim TOP_LISTSTRIP_ADJ gs = (if gs then 4 else 2)"
| "NumVertsPerPrim TOP_TRIANGLE_LIST gs = 3"
| "NumVertsPerPrim TOP_TRIANGLE_STRIP gs = 3"
| "NumVertsPerPrim TOP_TRI_LIST_ADJ gs = (if gs then 6 else 3)"
| "NumVertsPerPrim TOP_TRI_STRIP_ADJ gs = (if gs then 6 else 3)"
| "NumVertsPerPrim TOP_UNKNOWN gs = 0"

section \<open>The cut-aware assembler \<^verbatim>\<open>PA_STATE_CUT\<close>\<close>

text \<open>
  The per-topology member function \<^verbatim>\<open>pfnPa\<close> points to. \<open>PfnTriStripAdj b\<close> is the
  instance \<^verbatim>\<open>ProcessVertTriStripAdj<b>\<close> of the template.
\<close>

datatype PFN_PA_FUNC =
    PfnTriList
  | PfnTriListAdj
  | PfnTriListAdjNoGs
  | PfnTriStrip
  | PfnTriStripAdj bool
  | PfnPointList
  | PfnLineList
  | PfnLineListAdj
  | PfnLineListAdjNoGs
  | PfnLineStrip
  | PfnLineStripAdj
  | PfnLineStripAdjNoGs

text \<open>
  The fields of \<^verbatim>\<open>PA_STATE\<close> and \<^verbatim>\<open>PA_STATE_CUT\<close> the member functions read or write.
  The arrays \<^verbatim>\<open>vert\<close>, \<^verbatim>\<open>indices\<close> and \<^verbatim>\<open>vOffsets\<close> are functions of their
  subscripts; every store checks its subscript against the array bound and fails with
  \<open>OutOfBounds\<close> outside. \<^verbatim>\<open>pCutIndices\<close> points to the caller's ring of cut masks
  (one \<^verbatim>\<open>simdmask\<close> byte for the 8 vertices of a batch). The vertex data behind
  \<^verbatim>\<open>pStreamBase\<close> is passed to the functions that read it. \<open>uninit\<close> is the
  indeterminate value of the local \<^verbatim>\<open>nextTri[3]\<close>, which
  \<^verbatim>\<open>ProcessVertTriStripAdj\<close> copies to \<^verbatim>\<open>vert[3]\<close> without having set it.
\<close>

record PA_STATE =
  streamSizeInVerts :: nat
  binTopology :: PRIMITIVE_TOPOLOGY

record PA_STATE_CUT = PA_STATE +
  pCutIndices :: "nat \<Rightarrow> 8 word"
  numVerts :: nat
  numAttribs :: nat
  numRemainingVerts :: int
  numVertsToAssemble :: nat
  indices :: "nat \<Rightarrow> nat \<Rightarrow> nat"
  vOffsets :: "nat \<Rightarrow> nat \<Rightarrow> 32 word"
  numPrimsAssembled :: nat
  headVertex :: nat
  tailVertex :: nat
  curVertex :: nat
  vPrimId :: "32 word list"
  needOffsets :: bool
  vertsPerPrim :: nat
  processCutVerts :: bool
  vert :: "nat \<Rightarrow> nat"
  curIndex :: nat
  reverseWinding :: bool
  adjExtraVert :: int
  pfnPa :: PFN_PA_FUNC
  uninit :: nat

text \<open>\<^verbatim>\<open>indices[v][numPrimsAssembled] = x\<close>.\<close>

definition put_index :: "nat \<Rightarrow> nat \<Rightarrow> PA_STATE_CUT \<Rightarrow> PA_STATE_CUT" where
  "put_index v x s =
     s\<lparr>indices := (indices s)(v := (indices s v)(numPrimsAssembled s := x))\<rparr>"

subsection \<open>Per-topology functions\<close>

definition ProcessVertTriStrip :: "nat \<Rightarrow> bool \<Rightarrow> PA_STATE_CUT \<Rightarrow> error + PA_STATE_CUT" where
  "ProcessVertTriStrip index finish s0 =
     (if MAX_NUM_VERTS_PER_PRIM \<le> curIndex s0 then Inl OutOfBounds
      else
        let s = s0\<lparr>vert := (vert s0)(curIndex s0 := index)\<rparr>;
            s = s\<lparr>curIndex := curIndex s + 1\<rparr>
        in
          if curIndex s = 3 then
            (if KNOB_SIMD_WIDTH \<le> numPrimsAssembled s then Inl OutOfBounds
             else
               let s = put_index 0 (vert s 0) s;
                   s = (if reverseWinding s
                        then put_index 2 (vert s 1) (put_index 1 (vert s 2) s)
                        else put_index 2 (vert s 2) (put_index 1 (vert s 1) s));
                   s = s\<lparr>numPrimsAssembled := numPrimsAssembled s + 1\<rparr>;
                   s = s\<lparr>vert := (vert s)(0 := vert s 1)\<rparr>;
                   s = s\<lparr>vert := (vert s)(1 := vert s 2)\<rparr>;
                   s = s\<lparr>curIndex := 2\<rparr>;
                   s = s\<lparr>reverseWinding := \<not> reverseWinding s\<rparr>
               in Inr s)
          else Inr s)"

definition AssembleTriStripAdj :: "bool \<Rightarrow> PA_STATE_CUT \<Rightarrow> error + PA_STATE_CUT" where
  "AssembleTriStripAdj gsEnabled s0 =
     (if KNOB_SIMD_WIDTH \<le> numPrimsAssembled s0 then Inl OutOfBounds
      else if \<not> gsEnabled then
        let s = s0\<lparr>vert := (vert s0)(1 := vert s0 2)\<rparr>;
            s = s\<lparr>vert := (vert s)(2 := vert s 4)\<rparr>;
            s = put_index 0 (vert s 0) s;
            s = put_index 1 (vert s 1) s;
            s = put_index 2 (vert s 2) s;
            s = s\<lparr>vert := (vert s)(4 := vert s 2)\<rparr>;
            s = s\<lparr>vert := (vert s)(2 := vert s 1)\<rparr>
        in Inr (s\<lparr>numPrimsAssembled := numPrimsAssembled s + 1\<rparr>)
      else
        let s = put_index 0 (vert s0 0) s0;
            s = put_index 1 (vert s 1) s;
            s = put_index 2 (vert s 2) s;
            s = put_index 3 (vert s 3) s;
            s = put_index 4 (vert s 4) s;
            s = put_index 5 (vert s 5) s
        in Inr (s\<lparr>numPrimsAssembled := numPrimsAssembled s + 1\<rparr>))"

text \<open>
  The "reorder" step of \<^verbatim>\<open>ProcessVertTriStripAdj\<close>: the local \<^verbatim>\<open>nextTri\<close> gets five
  of its six entries and is copied to \<^verbatim>\<open>vert\<close> whole.
\<close>

definition nextTri :: "PA_STATE_CUT \<Rightarrow> nat \<Rightarrow> nat" where
  "nextTri s =
     (if reverseWinding s
      then (\<lambda>i. uninit s)(0 := vert s 4, 1 := vert s 0, 2 := vert s 2,
                           4 := vert s 3, 5 := nat (adjExtraVert s mod 2 ^ 32))
      else (\<lambda>i. uninit s)(0 := vert s 2, 1 := nat (adjExtraVert s mod 2 ^ 32), 2 := vert s 3,
                           4 := vert s 4, 5 := vert s 0))"

definition copy_nextTri :: "PA_STATE_CUT \<Rightarrow> PA_STATE_CUT" where
  "copy_nextTri s = s\<lparr>vert := (\<lambda>i. if i < 6 then nextTri s i else vert s i)\<rparr>"

definition ProcessVertTriStripAdj ::
  "bool \<Rightarrow> nat \<Rightarrow> bool \<Rightarrow> PA_STATE_CUT \<Rightarrow> error + PA_STATE_CUT" where
  "ProcessVertTriStripAdj gsEnabled index finish s =
     (if finish \<and> adjExtraVert s \<noteq> -1 then
        bindE (AssembleTriStripAdj gsEnabled (s\<lparr>vert := (vert s)(3 := nat (adjExtraVert s mod 2 ^ 32))\<rparr>))
          (\<lambda>s. Inr (s\<lparr>adjExtraVert := -1\<rparr>))
      else if curIndex s = 0 \<or> curIndex s = 1 \<or> curIndex s = 2 \<or> curIndex s = 4 then
        Inr (s\<lparr>vert := (vert s)(curIndex s := index), curIndex := curIndex s + 1\<rparr>)
      else if curIndex s = 3 then
        Inr (s\<lparr>vert := (vert s)(5 := index), curIndex := curIndex s + 1\<rparr>)
      else if curIndex s = 5 then
        (if adjExtraVert s = -1 then Inr (s\<lparr>adjExtraVert := int index\<rparr>)
         else
           let s = s\<lparr>vert := (vert s)(3 := index)\<rparr> in
           if \<not> gsEnabled then
             bindE (AssembleTriStripAdj gsEnabled s)
               (\<lambda>s. let s = copy_nextTri s;
                         s = s\<lparr>adjExtraVert := -1\<rparr>
                     in Inr (s\<lparr>reverseWinding := \<not> reverseWinding s\<rparr>))
           else Inr (s\<lparr>curIndex := curIndex s + 1\<rparr>))
      else if curIndex s = 6 then
        (if adjExtraVert s = -1 then Inl AssertFailure
         else
           bindE (AssembleTriStripAdj gsEnabled s)
             (\<lambda>s. let s = copy_nextTri s;
                       s = s\<lparr>reverseWinding := \<not> reverseWinding s\<rparr>;
                       s = s\<lparr>adjExtraVert := int index\<rparr>
                   in Inr (s\<lparr>curIndex := curIndex s - 1\<rparr>)))
      else Inr s)"

definition ProcessVertTriList :: "nat \<Rightarrow> bool \<Rightarrow> PA_STATE_CUT \<Rightarrow> error + PA_STATE_CUT" where
  "ProcessVertTriList index finish s0 =
     (if MAX_NUM_VERTS_PER_PRIM \<le> curIndex s0 then Inl OutOfBounds
      else
        let s = s0\<lparr>vert := (vert s0)(curIndex s0 := index)\<rparr>;
            s = s\<lparr>curIndex := curIndex s + 1\<rparr>
        in
          if curIndex s = 3 then
            (if KNOB_SIMD_WIDTH \<le> numPrimsAssembled s then Inl OutOfBounds
             else
               let s = put_index 0 (vert s 0) s;
                   s = put_index 1 (vert s 1) s;
                   s = put_index 2 (vert s 2) s;
                   s = s\<lparr>numPrimsAssembled := numPrimsAssembled s + 1\<rparr>
               in Inr (s\<lparr>curIndex := 0\<rparr>))
          else Inr s)"

definition ProcessVertTriListAdj :: "nat \<Rightarrow> bool \<Rightarrow> PA_STATE_CUT \<Rightarrow> error + PA_STATE_CUT" where
  "ProcessVertTriListAdj index finish s0 =
     (if MAX_NUM_VERTS_PER_PRIM \<le> curIndex s0 then Inl OutOfBounds
      else
        let s = s0\<lparr>vert := (vert s0)(curIndex s0 := index)\<rparr>;
            s = s\<lparr>curIndex := curIndex s + 1\<rparr>
        in
          if curIndex s = 6 then
            (if KNOB_SIMD_WIDTH \<le> numPrimsAssembled s then Inl OutOfBounds
             else
               let s = put_index 0 (vert s 0) s;
                   s = put_index 1 (vert s 1) s;
                   s = put_index 2 (vert s 2) s;
                   s = put_index 3 (vert s 3) s;
                   s = put_index 4 (vert s 4) s;
                   s = put_index 5 (vert s 5) s;
                   s = s\<lparr>numPrimsAssembled := numPrimsAssembled s + 1\<rparr>
               in Inr (s\<lparr>curIndex := 0\<rparr>))
          else Inr s)"

definition ProcessVertTriListAdjNoGs :: "nat \<Rightarrow> bool \<Rightarrow> PA_STATE_CUT \<Rightarrow> error + PA_STATE_CUT" where
  "ProcessVertTriListAdjNoGs index finish s0 =
     (if MAX_NUM_VERTS_PER_PRIM \<le> curIndex s0 then Inl OutOfBounds
      else
        let s = s0\<lparr>vert := (vert s0)(curIndex s0 := index)\<rparr>;
            s = s\<lparr>curIndex := curIndex s + 1\<rparr>
        in
          if curIndex s = 6 then
            (if KNOB_SIMD_WIDTH \<le> numPrimsAssembled s then Inl OutOfBounds
             else
               let s = put_index 0 (vert s 0) s;
                   s = put_index 1 (vert s 2) s;
                   s = put_index 2 (vert s 4) s;
                   s = s\<lparr>numPrimsAssembled := numPrimsAssembled s + 1\<rparr>
               in Inr (s\<lparr>curIndex := 0\<rparr>))
          else Inr s)"

definition ProcessVertLineList :: "nat \<Rightarrow> bool \<Rightarrow> PA_STATE_CUT \<Rightarrow> error + PA_STATE_CUT" where
  "ProcessVertLineList index finish s0 =
     (if MAX_NUM_VERTS_PER_PRIM \<le> curIndex s0 then Inl OutOfBounds
      else
        let s = s0\<lparr>vert := (vert s0)(curIndex s0 := index)\<rparr>;
            s = s\<lparr>curIndex := curIndex s + 1\<rparr>
        in
          if curIndex s = 2 then
            (if KNOB_SIMD_WIDTH \<le> numPrimsAssembled s then Inl OutOfBounds
             else
               let s = put_index 0 (vert s 0) s;
                   s = put_index 1 (vert s 1) s;
                   s = s\<lparr>numPrimsAssembled := numPrimsAssembled s + 1\<rparr>
               in Inr (s\<lparr>curIndex := 0\<rparr>))
          else Inr s)"

definition ProcessVertLineStrip :: "nat \<Rightarrow> bool \<Rightarrow> PA_STATE_CUT \<Rightarrow> error + PA_STATE_CUT" where
  "ProcessVertLineStrip index finish s0 =
     (if MAX_NUM_VERTS_PER_PRIM \<le> curIndex s0 then Inl OutOfBounds
      else
        let s = s0\<lparr>vert := (vert s0)(curIndex s0 := index)\<rparr>;
            s = s\<lparr>curIndex := curIndex s + 1\<rparr>
        in
          if curIndex s = 2 then
            (if KNOB_SIMD_WIDTH \<le> numPrimsAssembled s then Inl OutOfBounds
             else
               let s = put_index 0 (vert s 0) s;
                   s = put_index 1 (vert s 1) s;
                   s = s\<lparr>numPrimsAssembled := numPrimsAssembled s + 1\<rparr>;
                   s = s\<lparr>vert := (vert s)(0 := vert s 1)\<rparr>
               in Inr (s\<lparr>curIndex := 1\<rparr>))
          else Inr s)"

definition ProcessVertLineStripAdj :: "nat \<Rightarrow> bool \<Rightarrow> PA_STATE_CUT \<Rightarrow> error + PA_STATE_CUT" where
  "ProcessVertLineStripAdj index finish s0 =
     (if MAX_NUM_VERTS_PER_PRIM \<le> curIndex s0 then Inl OutOfBounds
      else
        let s = s0\<lparr>vert := (vert s0)(curIndex s0 := index)\<rparr>;
            s = s\<lparr>curIndex := curIndex s + 1\<rparr>
        in
          if curIndex s = 4 then
            (if KNOB_SIMD_WIDTH \<le> numPrimsAssembled s then Inl OutOfBounds
             else
               let s = put_index 0 (vert s 0) s;
                   s = put_index 1 (vert s 1) s;
                   s = put_index 2 (vert s 2) s;
                   s = put_index 3 (vert s 3) s;
                   s = s\<lparr>numPrimsAssembled := numPrimsAssembled s + 1\<rparr>;
                   s = s\<lparr>vert := (vert s)(0 := vert s 1)\<rparr>;
                   s = s\<lparr>vert := (vert s)(1 := vert s 2)\<rparr>;
                   s = s\<lparr>vert := (vert s)(2 := vert s 3)\<rparr>
               in Inr (s\<lparr>curIndex := 3\<rparr>))
          else Inr s)"

definition ProcessVertLineStripAdjNoGs :: "nat \<Rightarrow> bool \<Rightarrow> PA_STATE_CUT \<Rightarrow> error + PA_STATE_CUT" where
  "ProcessVertLineStripAdjNoGs index finish s0 =
     (if MAX_NUM_VERTS_PER_PRIM \<le> curIndex s0 then Inl OutOfBounds
      else
        let s = s0\<lparr>vert := (vert s0)(curIndex s0 := index)\<rparr>;
            s = s\<lparr>curIndex := curIndex s + 1\<rparr>
        in
          if curIndex s = 4 then
            (if KNOB_SIMD_WIDTH \<le> numPrimsAssembled s then Inl OutOfBounds
             else
               let s = put_index 0 (vert s 1) s;
                   s = put_index 1 (vert s 2) s;
                   s = s\<lparr>numPrimsAssembled := numPrimsAssembled s + 1\<rparr>;
                   s = s\<lparr>vert := (vert s)(0 := vert s 1)\<rparr>;
                   s = s\<lparr>vert := (vert s)(1 := vert s 2)\<rparr>;
                   s = s\<lparr>vert := (vert s)(2 := vert s 3)\<rparr>
               in Inr (s\<lparr>curIndex := 3\<rparr>))
          else Inr s)"

definition ProcessVertLineListAdj :: "nat \<Rightarrow> bool \<Rightarrow> PA_STATE_CUT \<Rightarrow> error + PA_STATE_CUT" where
  "ProcessVertLineListAdj index finish s0 =
     (if MAX_NUM_VERTS_PER_PRIM \<le> curIndex s0 then Inl OutOfBounds
      else
        let s = s0\<lparr>vert := (vert s0)(curIndex s0 := index)\<rparr>;
            s = s\<lparr>curIndex := curIndex s + 1\<rparr>
        in
          if curIndex s = 4 then
            (if KNOB_SIMD_WIDTH \<le> numPrimsAssembled s then Inl OutOfBounds
             else
               let s = put_index 0 (vert s 0) s;
                   s = put_index 1 (vert s 1) s;
                   s = put_index 2 (vert s 2) s;
                   s = put_index 3 (vert s 3) s;
                   s = s\<lparr>numPrimsAssembled := numPrimsAssembled s + 1\<rparr>
               in Inr (s\<lparr>curIndex := 0\<rparr>))
          else Inr s)"

definition ProcessVertLineListAdjNoGs :: "nat \<Rightarrow> bool \<Rightarrow> PA_STATE_CUT \<Rightarrow> error + PA_STATE_CUT" where
  "ProcessVertLineListAdjNoGs index finish s0 =
     (if MAX_NUM_VERTS_PER_PRIM \<le> curIndex s0 then Inl OutOfBounds
      else
        let s = s0\<lparr>vert := (vert s0)(curIndex s0 := index)\<rparr>;
            s = s\<lparr>curIndex := curIndex s + 1\<rparr>
        in
          if curIndex s = 4 then
            (if KNOB_SIMD_WIDTH \<le> numPrimsAssembled s then Inl OutOfBounds
             else
               let s = put_index 0 (vert s 1) s;
                   s = put_index 1 (vert s 2) s;
                   s = s\<lparr>numPrimsAssembled := numPrimsAssembled s + 1\<rparr>
               in Inr (s\<lparr>curIndex := 0\<rparr>))
          else Inr s)"

definition ProcessVertPointList :: "nat \<Rightarrow> bool \<Rightarrow> PA_STATE_CUT \<Rightarrow> error + PA_STATE_CUT" where
  "ProcessVertPointList index finish s0 =
     (if MAX_NUM_VERTS_PER_PRIM \<le> curIndex s0 then Inl OutOfBounds
      else
        let s = s0\<lparr>vert := (vert s0)(curIndex s0 := index)\<rparr>;
            s = s\<lparr>curIndex := curIndex s + 1\<rparr>
        in
          if curIndex s = 1 then
            (if KNOB_SIMD_WIDTH \<le> numPrimsAssembled s then Inl OutOfBounds
             else
               let s = put_index 0 (vert s 0) s;
                   s = s\<lparr>numPrimsAssembled := numPrimsAssembled s + 1\<rparr>
               in Inr (s\<lparr>curIndex := 0\<rparr>))
          else Inr s)"

text \<open>The call \<^verbatim>\<open>(this->*pfnPa)(vert, finish)\<close>.\<close>

fun call_pfnPa :: "PFN_PA_FUNC \<Rightarrow> nat \<Rightarrow> bool \<Rightarrow> PA_STATE_CUT \<Rightarrow> error + PA_STATE_CUT" where
  "call_pfnPa PfnTriList = ProcessVertTriList"
| "call_pfnPa PfnTriListAdj = ProcessVertTriListAdj"
| "call_pfnPa PfnTriListAdjNoGs = ProcessVertTriListAdjNoGs"
| "call_pfnPa PfnTriStrip = ProcessVertTriStrip"
| "call_pfnPa (PfnTriStripAdj gsEnabled) = ProcessVertTriStripAdj gsEnabled"
| "call_pfnPa PfnPointList = ProcessVertPointList"
| "call_pfnPa PfnLineList = ProcessVertLineList"
| "call_pfnPa PfnLineListAdj = ProcessVertLineListAdj"
| "call_pfnPa PfnLineListAdjNoGs = ProcessVertLineListAdjNoGs"
| "call_pfnPa PfnLineStrip = ProcessVertLineStrip"
| "call_pfnPa PfnLineStripAdj = ProcessVertLineStripAdj"
| "call_pfnPa PfnLineStripAdjNoGs = ProcessVertLineStripAdjNoGs"

subsection \<open>Construction and the feed points\<close>

text \<open>The conversion of a \<^verbatim>\<open>uint32_t\<close> to \<^verbatim>\<open>int32_t\<close>.\<close>

definition s32 :: "nat \<Rightarrow> int" where
  "s32 n = (if u32 n < 2 ^ 31 then int (u32 n) else int (u32 n) - 2 ^ 32)"

text \<open>
  The constructor. \<open>gsEnabled\<close> is the flag it reads from the draw context. It leaves
  \<^verbatim>\<open>vert\<close> and \<^verbatim>\<open>vOffsets\<close> as they are in memory: \<open>vert0\<close> and \<open>vOffsets0\<close> are
  these indeterminate contents, \<open>uninit0\<close> the one of \<^verbatim>\<open>nextTri[3]\<close>.
\<close>

definition pfnPa_of :: "PRIMITIVE_TOPOLOGY \<Rightarrow> bool \<Rightarrow> error + PFN_PA_FUNC" where
  "pfnPa_of topo gsEnabled =
     (case topo of
        TOP_TRIANGLE_LIST \<Rightarrow> Inr PfnTriList
      | TOP_TRI_LIST_ADJ \<Rightarrow> Inr (if gsEnabled then PfnTriListAdj else PfnTriListAdjNoGs)
      | TOP_TRIANGLE_STRIP \<Rightarrow> Inr PfnTriStrip
      | TOP_TRI_STRIP_ADJ \<Rightarrow> Inr (PfnTriStripAdj gsEnabled)
      | TOP_POINT_LIST \<Rightarrow> Inr PfnPointList
      | TOP_LINE_LIST \<Rightarrow> Inr PfnLineList
      | TOP_LINE_LIST_ADJ \<Rightarrow> Inr (if gsEnabled then PfnLineListAdj else PfnLineListAdjNoGs)
      | TOP_LINE_STRIP \<Rightarrow> Inr PfnLineStrip
      | TOP_LISTSTRIP_ADJ \<Rightarrow> Inr (if gsEnabled then PfnLineStripAdj else PfnLineStripAdjNoGs)
      | TOP_UNKNOWN \<Rightarrow> Inl AssertFailure)"

definition PA_STATE_CUT_init ::
  "nat \<Rightarrow> (nat \<Rightarrow> 8 word) \<Rightarrow> nat \<Rightarrow> nat \<Rightarrow> PRIMITIVE_TOPOLOGY \<Rightarrow> bool \<Rightarrow> bool \<Rightarrow>
   (nat \<Rightarrow> nat) \<Rightarrow> (nat \<Rightarrow> nat \<Rightarrow> 32 word) \<Rightarrow> nat \<Rightarrow> error + PA_STATE_CUT" where
  "PA_STATE_CUT_init in_streamSizeInVerts in_pIndices in_numVerts in_numAttribs topo
       in_processCutVerts gsEnabled vert0 vOffsets0 uninit0 =
     bindE (pfnPa_of topo gsEnabled) (\<lambda>pfn. Inr
       \<lparr> streamSizeInVerts = in_streamSizeInVerts,
         binTopology = topo,
         pCutIndices = in_pIndices,
         numVerts = in_streamSizeInVerts,
         numAttribs = in_numAttribs,
         numRemainingVerts = s32 in_numVerts,
         numVertsToAssemble = u32 in_numVerts,
         indices = (\<lambda>v l. 0),
         vOffsets = vOffsets0,
         numPrimsAssembled = 0,
         headVertex = 0,
         tailVertex = 0,
         curVertex = 0,
         vPrimId = [0, 1, 2, 3, 4, 5, 6, 7],
         needOffsets = False,
         vertsPerPrim = NumVertsPerPrim topo gsEnabled,
         processCutVerts = in_processCutVerts,
         vert = vert0,
         curIndex = 0,
         reverseWinding = False,
         adjExtraVert = -1,
         pfnPa = pfn,
         uninit = uninit0 \<rparr>)"

text \<open>
  \<^verbatim>\<open>GetNextVsOutput\<close> returns the slot of the vertex ring the caller writes the next
  batch to (as the number of the batch) and moves the head.
\<close>

definition GetNextVsOutput :: "PA_STATE_CUT \<Rightarrow> error + nat \<times> PA_STATE_CUT" where
  "GetNextVsOutput s =
     (if numVerts s = 0 then Inl DivideByZero
      else Inr (headVertex s div KNOB_SIMD_WIDTH,
                s\<lparr>headVertex := u32 (headVertex s + KNOB_SIMD_WIDTH) mod numVerts s,
                  needOffsets := True\<rparr>))"

text \<open>
  \<^verbatim>\<open>GetNextVsIndices\<close> returns the slot of the cut mask of the next batch; the caller
  stores the mask there (\<open>store_cut_mask\<close>).
\<close>

definition GetNextVsIndices :: "PA_STATE_CUT \<Rightarrow> nat" where
  "GetNextVsIndices s = headVertex s div KNOB_SIMD_WIDTH"

definition store_cut_mask :: "8 word \<Rightarrow> PA_STATE_CUT \<Rightarrow> PA_STATE_CUT" where
  "store_cut_mask m s = s\<lparr>pCutIndices := (pCutIndices s)(GetNextVsIndices s := m)\<rparr>"

definition HasWork :: "PA_STATE_CUT \<Rightarrow> bool" where
  "HasWork s = (numRemainingVerts s > 0 \<or> adjExtraVert s \<noteq> -1)"

definition GetNextStreamOutput :: "PA_STATE_CUT \<Rightarrow> bool \<times> PA_STATE_CUT" where
  "GetNextStreamOutput s =
     (let s = s\<lparr>headVertex := u32 (headVertex s + KNOB_SIMD_WIDTH), needOffsets := True\<rparr>
      in (HasWork s, s))"

definition GetPrimID :: "nat \<Rightarrow> PA_STATE_CUT \<Rightarrow> 32 word list" where
  "GetPrimID startID s = map (\<lambda>x. word_of_nat startID + x) (vPrimId s)"

definition Reset :: "PA_STATE_CUT \<Rightarrow> PA_STATE_CUT" where
  "Reset s =
     s\<lparr>numRemainingVerts := s32 (numVertsToAssemble s),
       numPrimsAssembled := 0,
       curIndex := 0,
       curVertex := 0,
       tailVertex := 0,
       headVertex := 0,
       reverseWinding := False,
       adjExtraVert := -1,
       vPrimId := [0, 1, 2, 3, 4, 5, 6, 7]\<rparr>"

definition IsVertexStoreFull :: "PA_STATE_CUT \<Rightarrow> error + bool" where
  "IsVertexStoreFull s =
     (if numVerts s = 0 then Inl DivideByZero
      else Inr (u32 (headVertex s + KNOB_SIMD_WIDTH) mod numVerts s = tailVertex s))"

definition RestartTopology :: "PA_STATE_CUT \<Rightarrow> PA_STATE_CUT" where
  "RestartTopology s = s\<lparr>curIndex := 0, reverseWinding := False, adjExtraVert := -1\<rparr>"

text \<open>
  \<^verbatim>\<open>vertex & (KNOB_SIMD_WIDTH - 1)\<close> is \<open>vertex mod 8\<close>; the bit tested lies in the
  mask byte of the vertex's batch.
\<close>

definition IsCutIndex :: "PA_STATE_CUT \<Rightarrow> nat \<Rightarrow> bool" where
  "IsCutIndex s vertex =
     bit (pCutIndices s (vertex div KNOB_SIMD_WIDTH)) (vertex mod KNOB_SIMD_WIDTH)"

subsection \<open>\<^verbatim>\<open>ProcessVerts\<close>\<close>

text \<open>One iteration of the \<^verbatim>\<open>while\<close> loop of \<^verbatim>\<open>ProcessVerts\<close>.\<close>

definition ProcessVerts_body :: "PA_STATE_CUT \<Rightarrow> error + PA_STATE_CUT" where
  "ProcessVerts_body s =
     (if numVerts s = 0 then Inl DivideByZero
      else
        bindE
          (if IsCutIndex s (curVertex s) then
             bindE (if processCutVerts s then call_pfnPa (pfnPa s) (curVertex s) False s
                    else Inr s)
               (\<lambda>s. bindE (if adjExtraVert s \<noteq> -1 then call_pfnPa (pfnPa s) (curVertex s) True s
                            else Inr s)
                  (\<lambda>s. Inr (RestartTopology s)))
           else call_pfnPa (pfnPa s) (curVertex s) False s)
          (\<lambda>s. Inr (s\<lparr>curVertex := u32 (curVertex s + 1) mod numVerts s,
                       numRemainingVerts := numRemainingVerts s - 1\<rparr>)))"

text \<open>The guard of the loop.\<close>

definition ProcessVerts_cond :: "PA_STATE_CUT \<Rightarrow> bool" where
  "ProcessVerts_cond s =
     (numPrimsAssembled s \<noteq> KNOB_SIMD_WIDTH \<and> numRemainingVerts s > 0 \<and>
      curVertex s \<noteq> headVertex s)"

text \<open>
  The per-topology functions write the topology state and the gather table only; this
  is what makes the loop terminate (each iteration takes one vertex off
  \<^verbatim>\<open>numRemainingVerts\<close>).
\<close>

definition same_frame :: "PA_STATE_CUT \<Rightarrow> PA_STATE_CUT \<Rightarrow> bool" where
  "same_frame s s' =
     (streamSizeInVerts s' = streamSizeInVerts s \<and> binTopology s' = binTopology s \<and>
      pCutIndices s' = pCutIndices s \<and> numVerts s' = numVerts s \<and>
      numAttribs s' = numAttribs s \<and> numRemainingVerts s' = numRemainingVerts s \<and>
      numVertsToAssemble s' = numVertsToAssemble s \<and> vOffsets s' = vOffsets s \<and>
      headVertex s' = headVertex s \<and> tailVertex s' = tailVertex s \<and>
      curVertex s' = curVertex s \<and> vPrimId s' = vPrimId s \<and>
      needOffsets s' = needOffsets s \<and> vertsPerPrim s' = vertsPerPrim s \<and>
      processCutVerts s' = processCutVerts s \<and> pfnPa s' = pfnPa s \<and>
      uninit s' = uninit s)"

lemma bindE_simps [simp]:
  "bindE (Inl e) f = Inl e"
  "bindE (Inr x) f = f x"
  by (simp_all add: bindE_def)

lemma bindE_eq_Inr: "bindE m f = Inr y \<longleftrightarrow> (\<exists>x. m = Inr x \<and> f x = Inr y)"
  by (cases m) simp_all

lemma put_index_frame [simp]: "same_frame s (put_index v x s)"
  by (simp add: same_frame_def put_index_def)

lemma same_frame_refl [simp]: "same_frame s s"
  by (simp add: same_frame_def)

lemma same_frame_trans: "same_frame a b \<Longrightarrow> same_frame b c \<Longrightarrow> same_frame a c"
  by (simp add: same_frame_def)

lemma AssembleTriStripAdj_frame:
  "AssembleTriStripAdj g s = Inr s' \<Longrightarrow> same_frame s s'"
  by (auto simp: AssembleTriStripAdj_def same_frame_def put_index_def Let_def split: if_splits)

lemma copy_nextTri_frame [simp]: "same_frame s (copy_nextTri s)"
  by (simp add: same_frame_def copy_nextTri_def)

lemma ProcessVertTriStripAdj_frame:
  "ProcessVertTriStripAdj g i f s = Inr s' \<Longrightarrow> same_frame s s'"
  unfolding ProcessVertTriStripAdj_def
  by (auto simp: same_frame_def Let_def bindE_eq_Inr copy_nextTri_def split: if_splits dest!: AssembleTriStripAdj_frame)

lemma call_pfnPa_frame:
  "call_pfnPa f i fin s = Inr s' \<Longrightarrow> same_frame s s'"
  by (cases f)
     (auto simp: same_frame_def put_index_def Let_def
        ProcessVertTriList_def ProcessVertTriListAdj_def ProcessVertTriListAdjNoGs_def
        ProcessVertTriStrip_def ProcessVertPointList_def ProcessVertLineList_def
        ProcessVertLineListAdj_def ProcessVertLineListAdjNoGs_def ProcessVertLineStrip_def
        ProcessVertLineStripAdj_def ProcessVertLineStripAdjNoGs_def
        split: if_splits dest!: ProcessVertTriStripAdj_frame)

lemma ProcessVerts_body_remaining:
  assumes "ProcessVerts_body s = Inr s'"
  shows "numRemainingVerts s' = numRemainingVerts s - 1"
  using assms unfolding ProcessVerts_body_def
  by (auto simp: bindE_eq_Inr same_frame_def RestartTopology_def
        split: if_splits dest!: call_pfnPa_frame)

function ProcessVerts_loop :: "PA_STATE_CUT \<Rightarrow> error + PA_STATE_CUT" where
  "ProcessVerts_loop s =
     (if ProcessVerts_cond s
      then (case ProcessVerts_body s of Inl e \<Rightarrow> Inl e | Inr s' \<Rightarrow> ProcessVerts_loop s')
      else Inr s)"
  by pat_completeness auto
termination
proof (relation "measure (\<lambda>s. nat (numRemainingVerts s))")
  show "wf (measure (\<lambda>s. nat (numRemainingVerts s)))"
    by simp
next
  fix s s'
  assume "ProcessVerts_cond s" and "ProcessVerts_body s = Inr s'"
  then show "(s', s) \<in> measure (\<lambda>s. nat (numRemainingVerts s))"
    by (simp add: ProcessVerts_cond_def ProcessVerts_body_remaining)
qed

declare ProcessVerts_loop.simps [simp del]

text \<open>
  \<^verbatim>\<open>ProcessVerts\<close>: the loop, then the special case of the last primitive of a
  triangle strip with adjacency.
\<close>

definition ProcessVerts :: "PA_STATE_CUT \<Rightarrow> error + PA_STATE_CUT" where
  "ProcessVerts s =
     bindE (ProcessVerts_loop s)
       (\<lambda>s. if numPrimsAssembled s \<noteq> KNOB_SIMD_WIDTH \<and> numRemainingVerts s = 0 \<and>
                adjExtraVert s \<noteq> -1
             then call_pfnPa (pfnPa s) (curVertex s) True s
             else Inr s)"

subsection \<open>Retiring a batch\<close>

definition Advance :: "PA_STATE_CUT \<Rightarrow> PA_STATE_CUT" where
  "Advance s =
     s\<lparr>tailVertex := curVertex s,
       numPrimsAssembled := 0,
       vPrimId := map (\<lambda>x. x + word_of_nat KNOB_SIMD_WIDTH) (vPrimId s)\<rparr>"

definition NextPrim :: "PA_STATE_CUT \<Rightarrow> bool \<times> PA_STATE_CUT" where
  "NextPrim s =
     (False,
      if numPrimsAssembled s = KNOB_SIMD_WIDTH \<or> numRemainingVerts s \<le> 0 then Advance s
      else s)"

definition NumPrims :: "PA_STATE_CUT \<Rightarrow> nat" where
  "NumPrims s = numPrimsAssembled s"

subsection \<open>\<^verbatim>\<open>Assemble\<close>\<close>

text \<open>
  The byte offset \<^verbatim>\<open>ComputeOffsets\<close> derives from a vertex index, in 32-bit lanes:
  the batch (arithmetic shift by 3) times \<^verbatim>\<open>sizeof(simdvertex)\<close>, plus the lane
  (\<^verbatim>\<open>& 7\<close>) times \<^verbatim>\<open>sizeof(float)\<close>. \<^verbatim>\<open>sizeof(simdvertex)\<close> depends on a constant
  of another header and is the parameter \<open>szv\<close>.
\<close>

definition gather_offset :: "nat \<Rightarrow> nat \<Rightarrow> 32 word" where
  "gather_offset szv idx =
     (let vIndices = (word_of_nat idx :: 32 word);
          vVertexBatch = signed_drop_bit 3 vIndices;
          vVertexIndex = vIndices AND 7
      in vVertexBatch * word_of_nat szv + vVertexIndex * 4)"

definition ComputeOffsets :: "nat \<Rightarrow> PA_STATE_CUT \<Rightarrow> error + PA_STATE_CUT" where
  "ComputeOffsets szv s =
     (if MAX_NUM_VERTS_PER_PRIM < vertsPerPrim s then Inl OutOfBounds
      else Inr (fold
        (\<lambda>v s. s\<lparr>vOffsets := (vOffsets s)
                   (v := (\<lambda>l. if l < KNOB_SIMD_WIDTH then gather_offset szv (indices s v l)
                                else vOffsets s v l))\<rparr>)
        [0..<vertsPerPrim s] s))"

text \<open>
  \<^verbatim>\<open>Assemble\<close> up to its gather loop: it processes the outstanding vertices, returns
  false when the batch is incomplete and input remains, and computes the offsets when
  they are marked as needed.
\<close>

definition Assemble_state :: "nat \<Rightarrow> PA_STATE_CUT \<Rightarrow> error + bool \<times> PA_STATE_CUT" where
  "Assemble_state szv s =
     bindE (ProcessVerts s)
       (\<lambda>s. if numPrimsAssembled s \<noteq> KNOB_SIMD_WIDTH \<and> numRemainingVerts s > 0
             then Inr (False, s)
             else if needOffsets s
             then bindE (ComputeOffsets szv s) (\<lambda>s. Inr (True, s\<lparr>needOffsets := False\<rparr>))
             else Inr (True, s))"

text \<open>
  The gather loop. \<open>mem\<close> is the vertex memory behind \<^verbatim>\<open>pStreamBase\<close>: the float
  stored at a byte offset from it. \<^verbatim>\<open>sizeof(simdvector)\<close> is 4 components of 8 floats.
  The result is the list of the \<^verbatim>\<open>vertsPerPrim\<close> vectors stored to \<^verbatim>\<open>result[v]\<close>,
  each of 4 components of 8 lanes.
\<close>

definition sizeof_simdvector :: nat where
  "sizeof_simdvector = 4 * KNOB_SIMD_WIDTH * 4"

definition gather_prims :: "(int \<Rightarrow> 'a) \<Rightarrow> nat \<Rightarrow> PA_STATE_CUT \<Rightarrow> 'a list list list" where
  "gather_prims mem slot s =
     map (\<lambda>v. map (\<lambda>c. map (\<lambda>l.
            mem (int (c * KNOB_SIMD_WIDTH * 4) +
                 sint (vOffsets s v l + word_of_nat (slot * sizeof_simdvector))))
          [0..<KNOB_SIMD_WIDTH]) [0..<4]) [0..<vertsPerPrim s]"

definition Assemble ::
  "(int \<Rightarrow> 'a) \<Rightarrow> nat \<Rightarrow> nat \<Rightarrow> PA_STATE_CUT \<Rightarrow> error + bool \<times> 'a list list list \<times> PA_STATE_CUT" where
  "Assemble mem szv slot s =
     bindE (Assemble_state szv s)
       (\<lambda>(ok, s). Inr (ok, if ok then gather_prims mem slot s else [], s))"

text \<open>
  The gather indices of the primitives of the current batch: primitive \<open>l\<close> reads, for
  each of its \<^verbatim>\<open>vertsPerPrim\<close> vertices \<open>v\<close>, the vertex \<^verbatim>\<open>indices[v][l]\<close>.
\<close>

definition prim_indices :: "PA_STATE_CUT \<Rightarrow> nat \<Rightarrow> nat list" where
  "prim_indices s l = map (\<lambda>v. indices s v l) [0..<vertsPerPrim s]"

definition batch_prims :: "PA_STATE_CUT \<Rightarrow> nat list list" where
  "batch_prims s = map (prim_indices s) [0..<NumPrims s]"

subsection \<open>Reachable states\<close>

text \<open>
  The states of a cut-aware assembler: constructed, then driven through its public
  member functions in any order.
\<close>

inductive reaches :: "PA_STATE_CUT \<Rightarrow> PA_STATE_CUT \<Rightarrow> bool" where
  reaches_refl: "reaches s0 s0"
| reaches_output: "reaches s0 s \<Longrightarrow> GetNextVsOutput s = Inr (k, s') \<Longrightarrow> reaches s0 s'"
| reaches_mask: "reaches s0 s \<Longrightarrow> reaches s0 (store_cut_mask m s)"
| reaches_stream: "reaches s0 s \<Longrightarrow> reaches s0 (snd (GetNextStreamOutput s))"
| reaches_assemble: "reaches s0 s \<Longrightarrow> Assemble_state szv s = Inr (ok, s') \<Longrightarrow> reaches s0 s'"
| reaches_next: "reaches s0 s \<Longrightarrow> reaches s0 (snd (NextPrim s))"
| reaches_reset: "reaches s0 s \<Longrightarrow> reaches s0 (Reset s)"

definition reachable :: "PA_STATE_CUT \<Rightarrow> bool" where
  "reachable s =
     (\<exists>n cuts nv na topo pcv gs v0 o0 u0 s0.
        PA_STATE_CUT_init n cuts nv na topo pcv gs v0 o0 u0 = Inr s0 \<and> reaches s0 s)"

lemma r_init: "PA_STATE_CUT_init n cuts nv na topo pcv gs v0 o0 u0 = Inr s \<Longrightarrow> reachable s"
  unfolding reachable_def by (blast intro: reaches_refl)

lemma r_output: "reachable s \<Longrightarrow> GetNextVsOutput s = Inr (k, s') \<Longrightarrow> reachable s'"
  unfolding reachable_def by (blast intro: reaches_output)

lemma r_mask: "reachable s \<Longrightarrow> reachable (store_cut_mask m s)"
  unfolding reachable_def by (blast intro: reaches_mask)

lemma r_stream: "reachable s \<Longrightarrow> reachable (snd (GetNextStreamOutput s))"
  unfolding reachable_def by (blast intro: reaches_stream)

lemma r_assemble: "reachable s \<Longrightarrow> Assemble_state szv s = Inr (ok, s') \<Longrightarrow> reachable s'"
  unfolding reachable_def by (blast intro: reaches_assemble)

lemma r_next: "reachable s \<Longrightarrow> reachable (snd (NextPrim s))"
  unfolding reachable_def by (blast intro: reaches_next)

lemma r_reset: "reachable s \<Longrightarrow> reachable (Reset s)"
  unfolding reachable_def by (blast intro: reaches_reset)

subsection \<open>Invariants of the cut-aware assembler\<close>

text \<open>
  Only \<^verbatim>\<open>ProcessVertTriStripAdj\<close> sets \<^verbatim>\<open>adjExtraVert\<close>: in every reachable state
  it is -1 unless the topology function is the one of triangle strips with adjacency.
  \<open>finish_cond\<close> is the condition of the special case at the end of \<^verbatim>\<open>ProcessVerts\<close>.
\<close>

definition adj_inv :: "PA_STATE_CUT \<Rightarrow> bool" where
  "adj_inv s = (adjExtraVert s = -1 \<or> (\<exists>g. pfnPa s = PfnTriStripAdj g))"

definition finish_cond :: "PA_STATE_CUT \<Rightarrow> bool" where
  "finish_cond s = (numPrimsAssembled s \<noteq> KNOB_SIMD_WIDTH \<and> numRemainingVerts s = 0 \<and>
                adjExtraVert s \<noteq> -1)"

lemma call_pfnPa_adj:
  "call_pfnPa f i fin s = Inr s' \<Longrightarrow> (\<And>g. f \<noteq> PfnTriStripAdj g) \<Longrightarrow> adjExtraVert s' = adjExtraVert s"
  by (cases f)
     (auto simp: put_index_def Let_def
        ProcessVertTriList_def ProcessVertTriListAdj_def ProcessVertTriListAdjNoGs_def
        ProcessVertTriStrip_def ProcessVertPointList_def ProcessVertLineList_def
        ProcessVertLineListAdj_def ProcessVertLineListAdjNoGs_def ProcessVertLineStrip_def
        ProcessVertLineStripAdj_def ProcessVertLineStripAdjNoGs_def
        split: if_splits)

lemma call_pfnPa_adj_inv:
  assumes "call_pfnPa (pfnPa s) i fin s = Inr s'" and "adj_inv s"
  shows "adj_inv s'"
proof (cases "\<exists>g. pfnPa s = PfnTriStripAdj g")
  case True
  moreover have "pfnPa s' = pfnPa s"
    using call_pfnPa_frame [OF assms(1)] by (simp add: same_frame_def)
  ultimately show ?thesis by (simp add: adj_inv_def)
next
  case False
  then have "adjExtraVert s' = adjExtraVert s"
    using call_pfnPa_adj [OF assms(1)] by blast
  with assms(2) False show ?thesis by (simp add: adj_inv_def)
qed

lemma RestartTopology_adj_inv [simp]: "adj_inv (RestartTopology s)"
  by (simp add: adj_inv_def RestartTopology_def)

lemma ProcessVerts_body_adj_inv:
  assumes "ProcessVerts_body s = Inr s'" and "adj_inv s"
  shows "adj_inv s'"
proof -
  have upd: "adj_inv (x\<lparr>curVertex := a, numRemainingVerts := b\<rparr>) = adj_inv x" for x a b
    by (simp add: adj_inv_def)
  show ?thesis
  proof (cases "IsCutIndex s (curVertex s)")
    case True
    with assms(1) show ?thesis
      by (auto simp: ProcessVerts_body_def bindE_eq_Inr upd split: if_splits)
  next
    case False
    with assms show ?thesis
      by (auto simp: ProcessVerts_body_def bindE_eq_Inr upd split: if_splits
            dest: call_pfnPa_adj_inv)
  qed
qed

lemma ProcessVerts_loop_adj_inv:
  "ProcessVerts_loop s = Inr s' \<Longrightarrow> adj_inv s \<Longrightarrow> adj_inv s'"
proof (induction s rule: ProcessVerts_loop.induct)
  case (1 s)
  show ?case
  proof (cases "ProcessVerts_cond s")
    case True
    with "1.prems"(1) obtain t where t: "ProcessVerts_body s = Inr t" "ProcessVerts_loop t = Inr s'"
      by (subst (asm) ProcessVerts_loop.simps) (auto split: sum.splits)
    from "1.IH" [OF True t(1) t(2)] ProcessVerts_body_adj_inv [OF t(1) "1.prems"(2)]
    show ?thesis by simp
  next
    case False
    with "1.prems" show ?thesis
      by (subst (asm) ProcessVerts_loop.simps) simp
  qed
qed

lemma ProcessVerts_loop_exit:
  "ProcessVerts_loop s = Inr s' \<Longrightarrow> \<not> ProcessVerts_cond s'"
proof (induction s rule: ProcessVerts_loop.induct)
  case (1 s)
  show ?case
  proof (cases "ProcessVerts_cond s")
    case True
    with "1.prems"(1) obtain t where t: "ProcessVerts_body s = Inr t" "ProcessVerts_loop t = Inr s'"
      by (subst (asm) ProcessVerts_loop.simps) (auto split: sum.splits)
    from "1.IH" [OF True t(1) t(2)] show ?thesis .
  next
    case False
    with "1.prems" show ?thesis
      by (subst (asm) ProcessVerts_loop.simps) simp
  qed
qed

lemma ProcessVerts_loop_stable:
  "\<not> ProcessVerts_cond s \<Longrightarrow> ProcessVerts_loop s = Inr s"
  by (subst ProcessVerts_loop.simps) simp

lemma ProcessVertTriStripAdj_finish:
  assumes "ProcessVertTriStripAdj g i True s = Inr s'" and "adjExtraVert s \<noteq> -1"
  shows "adjExtraVert s' = -1"
  using assms
  by (auto simp: ProcessVertTriStripAdj_def bindE_eq_Inr)

lemma ProcessVerts_stable:
  "\<not> ProcessVerts_cond s \<Longrightarrow> \<not> finish_cond s \<Longrightarrow> ProcessVerts s = Inr s"
  by (auto simp: ProcessVerts_def ProcessVerts_loop_stable finish_cond_def)

lemma ProcessVerts_post:
  assumes "ProcessVerts s = Inr s'" and "adj_inv s"
  shows "\<not> ProcessVerts_cond s' \<and> \<not> finish_cond s' \<and> adj_inv s'"
proof -
  from assms(1) obtain t where t: "ProcessVerts_loop s = Inr t"
    and fin: "(if finish_cond t then call_pfnPa (pfnPa t) (curVertex t) True t else Inr t) = Inr s'"
    by (auto simp: ProcessVerts_def bindE_eq_Inr finish_cond_def)
  have nc: "\<not> ProcessVerts_cond t" and it: "adj_inv t"
    using ProcessVerts_loop_exit [OF t] ProcessVerts_loop_adj_inv [OF t assms(2)] by simp_all
  show ?thesis
  proof (cases "finish_cond t")
    case False
    with fin nc it show ?thesis by simp
  next
    case True
    with fin have c: "call_pfnPa (pfnPa t) (curVertex t) True t = Inr s'" by simp
    from True it obtain g where g: "pfnPa t = PfnTriStripAdj g"
      by (auto simp: finish_cond_def adj_inv_def)
    have a: "adjExtraVert s' = -1"
      using c True ProcessVertTriStripAdj_finish [of g "curVertex t" t s']
      by (simp add: g finish_cond_def)
    have fr: "same_frame t s'" using call_pfnPa_frame [OF c] .
    from True have "numRemainingVerts t = 0" by (simp add: finish_cond_def)
    with fr have "\<not> ProcessVerts_cond s'"
      by (simp add: ProcessVerts_cond_def same_frame_def)
    with a show ?thesis by (simp add: finish_cond_def adj_inv_def)
  qed
qed

lemma fold_vOffsets:
  "fold (\<lambda>v s. s\<lparr>vOffsets := F v s\<rparr>) vs s =
   s\<lparr>vOffsets := vOffsets (fold (\<lambda>v s. s\<lparr>vOffsets := F v s\<rparr>) vs s)\<rparr>"
proof (induction vs arbitrary: s)
  case Nil
  show ?case by simp
next
  case (Cons v vs)
  let ?f = "\<lambda>v s. s\<lparr>vOffsets := F v s\<rparr>"
  have "fold ?f (v # vs) s = fold ?f vs (s\<lparr>vOffsets := F v s\<rparr>)"
    by simp
  also have "\<dots> = (s\<lparr>vOffsets := F v s\<rparr>)\<lparr>vOffsets := vOffsets (fold ?f vs (s\<lparr>vOffsets := F v s\<rparr>))\<rparr>"
    by (rule Cons)
  also have "\<dots> = s\<lparr>vOffsets := vOffsets (fold ?f (v # vs) s)\<rparr>"
    by simp
  finally show ?case .
qed

lemma ComputeOffsets_vOffsets:
  assumes "ComputeOffsets szv s = Inr s'"
  shows "s' = s\<lparr>vOffsets := vOffsets s'\<rparr>"
proof -
  from assms have s': "s' = fold (\<lambda>v s. s\<lparr>vOffsets := (vOffsets s)
                   (v := (\<lambda>l. if l < KNOB_SIMD_WIDTH then gather_offset szv (indices s v l)
                                else vOffsets s v l))\<rparr>) [0..<vertsPerPrim s] s"
    by (auto simp: ComputeOffsets_def split: if_splits)
  show ?thesis
    unfolding s' by (rule fold_vOffsets)
qed

lemma ComputeOffsets_facts:
  assumes "ComputeOffsets szv s = Inr s'"
  shows "ProcessVerts_cond s' = ProcessVerts_cond s" "finish_cond s' = finish_cond s"
    "adj_inv s' = adj_inv s" "numPrimsAssembled s' = numPrimsAssembled s"
    "numRemainingVerts s' = numRemainingVerts s" "needOffsets s' = needOffsets s"
proof -
  obtain x where "s' = s\<lparr>vOffsets := x\<rparr>"
    by (rule that) (rule ComputeOffsets_vOffsets [OF assms])
  then show "ProcessVerts_cond s' = ProcessVerts_cond s" "finish_cond s' = finish_cond s"
    "adj_inv s' = adj_inv s" "numPrimsAssembled s' = numPrimsAssembled s"
    "numRemainingVerts s' = numRemainingVerts s" "needOffsets s' = needOffsets s"
    by (simp_all add: ProcessVerts_cond_def finish_cond_def adj_inv_def)
qed

lemma Assemble_state_idem:
  assumes "Assemble_state szv s = Inr (ok, s')" and "adj_inv s"
  shows "Assemble_state szv s' = Inr (ok, s')"
proof -
  from assms(1) obtain t where t: "ProcessVerts s = Inr t"
    and rest: "(if numPrimsAssembled t \<noteq> KNOB_SIMD_WIDTH \<and> numRemainingVerts t > 0
             then Inr (False, t)
             else if needOffsets t
             then bindE (ComputeOffsets szv t) (\<lambda>s. Inr (True, s\<lparr>needOffsets := False\<rparr>))
             else Inr (True, t)) = Inr (ok, s')"
    by (auto simp: Assemble_state_def bindE_eq_Inr)
  note post = ProcessVerts_post [OF t assms(2)]
  show ?thesis
  proof (cases "numPrimsAssembled t \<noteq> KNOB_SIMD_WIDTH \<and> numRemainingVerts t > 0")
    case True
    with rest have "ok = False" "s' = t" by auto
    with True post show ?thesis
      by (simp add: Assemble_state_def ProcessVerts_stable)
  next
    case False
    show ?thesis
    proof (cases "needOffsets t")
      case nf: False
      with False rest have "ok = True" "s' = t" by auto
      with False nf post show ?thesis
        by (simp add: Assemble_state_def ProcessVerts_stable)
    next
      case nt: True
      with False rest obtain u where u: "ComputeOffsets szv t = Inr u"
        and s': "s' = u\<lparr>needOffsets := False\<rparr>" and ok: "ok = True"
        by (auto simp: bindE_eq_Inr)
      have "\<not> ProcessVerts_cond s'" "\<not> finish_cond s'"
        using post ComputeOffsets_facts(1,2) [OF u]
        by (simp_all add: s' ProcessVerts_cond_def finish_cond_def)
      then have "ProcessVerts s' = Inr s'" by (rule ProcessVerts_stable)
      moreover have "\<not> (numPrimsAssembled s' \<noteq> KNOB_SIMD_WIDTH \<and> numRemainingVerts s' > 0)"
        using False ComputeOffsets_facts(4,5) [OF u] by (simp add: s')
      moreover have "\<not> needOffsets s'" by (simp add: s')
      ultimately show ?thesis by (simp add: Assemble_state_def ok)
    qed
  qed
qed

lemma Assemble_state_adj_inv:
  assumes "Assemble_state szv s = Inr (ok, s')" and "adj_inv s"
  shows "adj_inv s'"
proof -
  have upd: "adj_inv (x\<lparr>needOffsets := b\<rparr>) = adj_inv x" for x b
    by (simp add: adj_inv_def)
  from assms show ?thesis
    by (auto simp: Assemble_state_def bindE_eq_Inr upd ComputeOffsets_facts(3)
          split: if_splits dest: ProcessVerts_post)
qed

lemma reaches_adj_inv: "reaches s0 s \<Longrightarrow> adj_inv s0 \<Longrightarrow> adj_inv s"
proof (induction rule: reaches.induct)
  case (reaches_refl s0)
  then show ?case .
next
  case (reaches_output s0 s k s')
  then show ?case
    by (auto simp: GetNextVsOutput_def adj_inv_def split: if_splits)
next
  case (reaches_mask s0 s m)
  then show ?case by (simp add: store_cut_mask_def adj_inv_def)
next
  case (reaches_stream s0 s)
  then show ?case by (simp add: GetNextStreamOutput_def adj_inv_def Let_def)
next
  case (reaches_assemble s0 s szv ok s')
  then show ?case using Assemble_state_adj_inv by blast
next
  case (reaches_next s0 s)
  then show ?case by (simp add: NextPrim_def Advance_def adj_inv_def)
next
  case (reaches_reset s0 s)
  then show ?case by (simp add: Reset_def adj_inv_def)
qed

lemma init_adj_inv:
  "PA_STATE_CUT_init n cuts nv na topo pcv gs v0 o0 u0 = Inr s \<Longrightarrow> adj_inv s"
  by (auto simp: PA_STATE_CUT_init_def bindE_eq_Inr adj_inv_def)

lemma reachable_adj_inv: "reachable s \<Longrightarrow> adj_inv s"
  unfolding reachable_def by (blast intro: reaches_adj_inv init_adj_inv)

subsection \<open>Feeding a batch\<close>

text \<open>
  What the caller does to hand over the next batch of 8 vertices: it takes the slot of
  the cut mask (\<^verbatim>\<open>GetNextVsIndices\<close>) and the slot of the vertex data
  (\<^verbatim>\<open>GetNextVsOutput\<close>) and writes both. \<open>m\<close> is the cut mask of the batch.
\<close>

definition feed :: "8 word \<Rightarrow> PA_STATE_CUT \<Rightarrow> error + PA_STATE_CUT" where
  "feed m s = bindE (GetNextVsOutput (store_cut_mask m s)) (\<lambda>(k, s). Inr s)"

lemma reachable_feed: "reachable s \<Longrightarrow> feed m s = Inr s' \<Longrightarrow> reachable s'"
  by (auto simp: feed_def bindE_eq_Inr intro: r_output r_mask)

lemma upt_small:
  "[0..<1] = [0]" "[0..<2] = [0, 1]" "[0..<3] = [0, 1, 2]" "[0..<4] = [0, 1, 2, 3]"
  "[0..<6] = [0, 1, 2, 3, 4, 5]" "[0..<8] = [0, 1, 2, 3, 4, 5, 6, 7]"
  by (simp_all add: upt_rec)

lemmas pa_defs = upt_small
  ProcessVerts_def ProcessVerts_cond_def ProcessVerts_body_def IsCutIndex_def
  KNOB_SIMD_WIDTH_def MAX_NUM_VERTS_PER_PRIM_def RestartTopology_def u32_def
  ProcessVertTriStrip_def ProcessVertTriList_def put_index_def Let_def

lemmas init_defs = PA_STATE_CUT_init_def pfnPa_of_def feed_def store_cut_mask_def
  GetNextVsIndices_def GetNextVsOutput_def s32_def

section \<open>The draw loop\<close>

text \<open>
  Modelled from the spec: the loop of the front end that drives an assembler is not in
  \<^verbatim>\<open>pa.h\<close>. The spec describes it through the interface: the caller writes a new
  batch (and, for the cut-aware assembler, its restart mask) into the slots
  \<^verbatim>\<open>GetNextVsOutput\<close> and \<^verbatim>\<open>GetNextVsIndices\<close> return, calls \<^verbatim>\<open>Assemble\<close>, hands the
  primitives of the batch on when it returns true (their number is \<^verbatim>\<open>NumPrims\<close>),
  calls \<^verbatim>\<open>NextPrim\<close>, and repeats while \<^verbatim>\<open>HasWork\<close>. \<open>cuts j\<close> is the restart mask
  of the \<open>j\<close>-th batch of the draw; a batch past the end of the draw has no mask.
  \<^verbatim>\<open>NextPrim\<close> of the cut-aware assembler returns false, so each batch fed is
  followed by one \<^verbatim>\<open>Assemble\<close>.
\<close>

definition feed_batch :: "(nat \<Rightarrow> 8 word) \<Rightarrow> nat \<Rightarrow> PA_STATE_CUT \<Rightarrow> error + PA_STATE_CUT" where
  "feed_batch cuts j s =
     (if j * KNOB_SIMD_WIDTH < numVertsToAssemble s then feed (cuts j) s
      else bindE (GetNextVsOutput s) (\<lambda>(k, s). Inr s))"

text \<open>
  One iteration: the gather indices of the primitives handed on, and the state after
  \<^verbatim>\<open>NextPrim\<close>.
\<close>

definition draw_step ::
  "(nat \<Rightarrow> 8 word) \<Rightarrow> nat \<Rightarrow> nat \<Rightarrow> PA_STATE_CUT \<Rightarrow> error + nat list list \<times> PA_STATE_CUT" where
  "draw_step cuts szv j s =
     bindE (feed_batch cuts j s)
       (\<lambda>s. bindE (Assemble_state szv s)
          (\<lambda>(ok, s). Inr (if ok then batch_prims s else [], snd (NextPrim s))))"

text \<open>
  The loop, with fuel: \<open>None\<close> when the fuel runs out before \<^verbatim>\<open>HasWork\<close> is false.
  The result is the list of the primitives handed on, in order.
\<close>

fun draw_loop ::
  "nat \<Rightarrow> (nat \<Rightarrow> 8 word) \<Rightarrow> nat \<Rightarrow> nat \<Rightarrow> PA_STATE_CUT \<Rightarrow> nat list list \<Rightarrow>
   (error + nat list list) option" where
  "draw_loop 0 cuts szv j s acc = None"
| "draw_loop (Suc fuel) cuts szv j s acc =
     (if HasWork s then
        (case draw_step cuts szv j s of
           Inl e \<Rightarrow> Some (Inl e)
         | Inr (ps, s') \<Rightarrow> draw_loop fuel cuts szv (j + 1) s' (acc @ ps))
      else Some (Inr acc))"

text \<open>
  The first \<open>k\<close> iterations of the loop for a caller that asks \<^verbatim>\<open>IsVertexStoreFull\<close>
  before it feeds a batch: the run fails when the store is reported full or no work
  is left.
\<close>

fun guarded_steps ::
  "nat \<Rightarrow> (nat \<Rightarrow> 8 word) \<Rightarrow> nat \<Rightarrow> nat \<Rightarrow> PA_STATE_CUT \<Rightarrow> error + PA_STATE_CUT" where
  "guarded_steps 0 cuts szv j s = Inr s"
| "guarded_steps (Suc k) cuts szv j s =
     bindE (IsVertexStoreFull s)
       (\<lambda>full. if full \<or> \<not> HasWork s then Inl AssertFailure
               else bindE (draw_step cuts szv j s)
                      (\<lambda>(ps, s'). guarded_steps k cuts szv (j + 1) s'))"

lemma guarded_steps_unfold:
  "0 < k \<Longrightarrow> guarded_steps k cuts szv j s =
     bindE (IsVertexStoreFull s)
       (\<lambda>full. if full \<or> \<not> HasWork s then Inl AssertFailure
               else bindE (draw_step cuts szv j s)
                      (\<lambda>(ps, s'). guarded_steps (k - 1) cuts szv (j + 1) s'))"
  by (cases k) (simp_all cong: if_cong)

lemmas strip_adj_defs = ProcessVertTriStripAdj_def AssembleTriStripAdj_def copy_nextTri_def
  nextTri_def

lemmas asm_defs = Assemble_def Assemble_state_def ComputeOffsets_def
  NumPrims_def batch_prims_def prim_indices_def ProcessVerts_loop.simps

lemmas draw_defs = feed_batch_def draw_step_def NextPrim_def Advance_def HasWork_def
  IsVertexStoreFull_def

section \<open>The tessellation assembler \<^verbatim>\<open>PA_TESS\<close>\<close>

text \<open>
  The three pointers \<^verbatim>\<open>m_ppIndices[k]\<close> are positions in the index arrays supplied
  to the constructor: the functions that read indices take the arrays as \<open>idx\<close>, with
  \<open>idx k p\<close> the index at position \<open>p\<close> of the array of vertex \<open>k\<close>, and the vertex data
  behind \<^verbatim>\<open>m_pVertexData\<close> as \<open>mem\<close>, the float at a position counted in floats.
\<close>

record PA_TESS = PA_STATE +
  m_attributeStrideInVectors :: "32 word"
  m_numAttributes :: "32 word"
  m_numPrims :: "32 word"
  m_ppIndices :: "nat \<Rightarrow> nat"
  m_numVertsPerPrim :: "32 word"
  m_vPrimId :: "32 word list"

definition PA_TESS_init ::
  "32 word \<Rightarrow> 32 word \<Rightarrow> (nat \<Rightarrow> nat) \<Rightarrow> 32 word \<Rightarrow> PRIMITIVE_TOPOLOGY \<Rightarrow> error + PA_TESS" where
  "PA_TESS_init in_attributeStrideInVectors in_numAttributes in_ppIndices in_numPrims
       in_binTopology =
     bindE (case in_binTopology of
              TOP_POINT_LIST \<Rightarrow> Inr 1
            | TOP_LINE_LIST \<Rightarrow> Inr 2
            | TOP_TRIANGLE_LIST \<Rightarrow> Inr 3
            | _ \<Rightarrow> Inl AssertFailure)
       (\<lambda>n. Inr
         \<lparr> streamSizeInVerts = 0,
           binTopology = in_binTopology,
           m_attributeStrideInVectors = in_attributeStrideInVectors,
           m_numAttributes = in_numAttributes,
           m_numPrims = in_numPrims,
           m_ppIndices = (\<lambda>k. if k < 3 then in_ppIndices k else 0),
           m_numVertsPerPrim = n,
           m_vPrimId = replicate KNOB_SIMD_WIDTH 0 \<rparr>)"

definition PA_TESS_HasWork :: "PA_TESS \<Rightarrow> bool" where
  "PA_TESS_HasWork s = (m_numPrims s \<noteq> 0)"

definition PA_TESS_NumPrims :: "PA_TESS \<Rightarrow> 32 word" where
  "PA_TESS_NumPrims s = min (m_numPrims s) (word_of_nat KNOB_SIMD_WIDTH)"

text \<open>The table \<^verbatim>\<open>maskGen\<close> and the unaligned load of 8 of its entries.\<close>

definition maskGen :: "32 word list" where
  "maskGen = replicate KNOB_SIMD_WIDTH (-1) @ replicate KNOB_SIMD_WIDTH 0"

definition GenPrimMask :: "nat \<Rightarrow> error + 32 word list" where
  "GenPrimMask numPrims =
     (if numPrims \<le> KNOB_SIMD_WIDTH
      then Inr (take KNOB_SIMD_WIDTH (drop (KNOB_SIMD_WIDTH - numPrims) maskGen))
      else Inl AssertFailure)"

text \<open>
  \<^verbatim>\<open>_simd_mask_i32gather_ps(src, base, vindex, mask, 4)\<close>: a lane whose mask has the
  top bit set loads the float at \<open>base\<close> plus its index, read as a signed 32-bit
  number; the other lanes keep \<open>src\<close>.
\<close>

definition mask_i32gather_ps ::
  "'a list \<Rightarrow> (int \<Rightarrow> 'a) \<Rightarrow> int \<Rightarrow> 32 word list \<Rightarrow> 32 word list \<Rightarrow> 'a list" where
  "mask_i32gather_ps src mem base vindex vmask =
     map (\<lambda>l. if bit (vmask ! l) 31 then mem (base + sint (vindex ! l)) else src ! l)
       [0..<KNOB_SIMD_WIDTH]"

text \<open>
  The start of the lane array of a component of an attribute, in floats from
  \<^verbatim>\<open>m_pVertexData\<close>: \<^verbatim>\<open>&m_pVertexData[slot * m_attributeStrideInVectors * 4]\<close>, a
  vector being 8 floats, moved on by \<^verbatim>\<open>m_attributeStrideInVectors * KNOB_SIMD_WIDTH\<close>
  for each component; both products are of \<^verbatim>\<open>uint32_t\<close>.
\<close>

definition lane_array :: "PA_TESS \<Rightarrow> 32 word \<Rightarrow> nat \<Rightarrow> int" where
  "lane_array s slot c =
     int (unat (slot * m_attributeStrideInVectors s * 4)) * int KNOB_SIMD_WIDTH +
     int c * int (unat (m_attributeStrideInVectors s * word_of_nat KNOB_SIMD_WIDTH))"

definition PA_TESS_Assemble ::
  "(nat \<Rightarrow> nat \<Rightarrow> 32 word) \<Rightarrow> (int \<Rightarrow> 'a::zero) \<Rightarrow> 32 word \<Rightarrow> PA_TESS \<Rightarrow>
   error + bool \<times> 'a list list list" where
  "PA_TESS_Assemble idx mem slot s =
     (if \<not> slot < m_numAttributes s then Inl AssertFailure
      else
        let numPrimsToAssemble = PA_TESS_NumPrims s in
        if 0 = numPrimsToAssemble then Inr (False, [])
        else
          bindE (GenPrimMask (unat numPrimsToAssemble))
            (\<lambda>vmask. Inr (True,
               map (\<lambda>i.
                  let indices = map (\<lambda>l. idx i (m_ppIndices s i + l)) [0..<KNOB_SIMD_WIDTH]
                  in map (\<lambda>c. mask_i32gather_ps (replicate KNOB_SIMD_WIDTH 0) mem
                                (lane_array s slot c) indices vmask) [0..<4])
                 [0..<unat (m_numVertsPerPrim s)])))"

definition PA_TESS_AssembleSingle ::
  "(nat \<Rightarrow> nat \<Rightarrow> 32 word) \<Rightarrow> (int \<Rightarrow> 'a) \<Rightarrow> 32 word \<Rightarrow> 32 word \<Rightarrow> PA_TESS \<Rightarrow>
   error + 'a list list" where
  "PA_TESS_AssembleSingle idx mem slot primIndex s =
     (if \<not> slot < m_numAttributes s then Inl AssertFailure
      else if \<not> primIndex < PA_TESS_NumPrims s then Inl AssertFailure
      else Inr
        (map (\<lambda>i.
            let index = idx i (m_ppIndices s i + unat primIndex)
            in map (\<lambda>c. mem (lane_array s slot c + uint index)) [0..<4])
           [0..<unat (m_numVertsPerPrim s)]))"

definition PA_TESS_NextPrim :: "PA_TESS \<Rightarrow> bool \<times> PA_TESS" where
  "PA_TESS_NextPrim s =
     (let numPrims = PA_TESS_NumPrims s;
          s = s\<lparr>m_numPrims := m_numPrims s - numPrims\<rparr>;
          s = s\<lparr>m_ppIndices := (m_ppIndices s)(0 := m_ppIndices s 0 + unat numPrims)\<rparr>;
          s = s\<lparr>m_ppIndices := (m_ppIndices s)(1 := m_ppIndices s 1 + unat numPrims)\<rparr>;
          s = s\<lparr>m_ppIndices := (m_ppIndices s)(2 := m_ppIndices s 2 + unat numPrims)\<rparr>
      in (PA_TESS_HasWork s, s))"

text \<open>\<^verbatim>\<open>Reset\<close> is \<^verbatim>\<open>SWR_ASSERT(0)\<close>.\<close>

definition PA_TESS_Reset :: "PA_TESS \<Rightarrow> error + PA_TESS" where
  "PA_TESS_Reset s = Inl AssertFailure"

definition PA_TESS_GetPrimID :: "32 word \<Rightarrow> PA_TESS \<Rightarrow> 32 word list" where
  "PA_TESS_GetPrimID startID s = map (\<lambda>x. startID + x) (m_vPrimId s)"

text \<open>The state after \<open>k\<close> calls of \<^verbatim>\<open>NextPrim\<close>.\<close>

fun PA_TESS_retire :: "nat \<Rightarrow> PA_TESS \<Rightarrow> PA_TESS" where
  "PA_TESS_retire 0 s = s"
| "PA_TESS_retire (Suc k) s = PA_TESS_retire k (snd (PA_TESS_NextPrim s))"

section \<open>The optimized assembler \<^verbatim>\<open>PA_STATE_OPT\<close>\<close>

text \<open>
  The state functions the pointers \<^verbatim>\<open>pfnPaFunc\<close>, \<^verbatim>\<open>pfnPaSingleFunc\<close>,
  \<^verbatim>\<open>pfnPaFuncReset\<close> and \<^verbatim>\<open>pfnPaNextFunc\<close> point to are defined outside \<^verbatim>\<open>pa.h\<close>, and
  so is the constructor; a pointer is the number of its function. The counters are
  \<^verbatim>\<open>uint32_t\<close>.
\<close>

record PA_STATE_OPT = PA_STATE +
  numPrims :: "32 word"
  numPrimsComplete :: "32 word"
  numSimdPrims :: "32 word"
  cur :: "32 word"
  prev :: "32 word"
  first :: "32 word"
  counter :: "32 word"
  reset :: bool
  primIDIncr :: "32 word"
  primID :: "32 word list"
  pfnPaFunc :: nat
  pfnPaSingleFunc :: nat
  pfnPaFuncReset :: nat
  pfnPaNextFunc :: nat
  nextNumSimdPrims :: "32 word"
  nextNumPrimsIncrement :: "32 word"
  nextReset :: bool
  isStreaming :: bool

definition PA_STATE_OPT_HasWork :: "PA_STATE_OPT \<Rightarrow> bool" where
  "PA_STATE_OPT_HasWork s = (if numPrimsComplete s < numPrims s then True else False)"

definition PA_STATE_OPT_NextPrim :: "PA_STATE_OPT \<Rightarrow> bool \<times> PA_STATE_OPT" where
  "PA_STATE_OPT_NextPrim s0 =
     (let s = s0\<lparr>pfnPaFunc := pfnPaNextFunc s0\<rparr>;
          s = s\<lparr>numSimdPrims := nextNumSimdPrims s\<rparr>;
          s = s\<lparr>numPrimsComplete := numPrimsComplete s + nextNumPrimsIncrement s\<rparr>;
          s = s\<lparr>reset := nextReset s\<rparr>;
          s = (if isStreaming s then s\<lparr>reset := False\<rparr> else s);
          (morePrims, s) =
            (if numSimdPrims s > 0 then (True, s\<lparr>numSimdPrims := numSimdPrims s - 1\<rparr>)
             else (False, s\<lparr>counter := (if reset s then 0 else counter s + 1), reset := False\<rparr>));
          s = s\<lparr>pfnPaFunc := pfnPaNextFunc s\<rparr>
      in (if \<not> PA_STATE_OPT_HasWork s then False else morePrims, s))"

definition PA_STATE_OPT_NumPrims :: "PA_STATE_OPT \<Rightarrow> 32 word" where
  "PA_STATE_OPT_NumPrims s =
     (if numPrimsComplete s + nextNumPrimsIncrement s > numPrims s
      then word_of_nat KNOB_SIMD_WIDTH - (numPrimsComplete s + nextNumPrimsIncrement s - numPrims s)
      else word_of_nat KNOB_SIMD_WIDTH)"

definition SetNextState :: "nat \<Rightarrow> nat \<Rightarrow> 32 word \<Rightarrow> 32 word \<Rightarrow> bool \<Rightarrow> PA_STATE_OPT \<Rightarrow> PA_STATE_OPT" where
  "SetNextState pfnPaNextFunc' pfnPaNextSingleFunc numSimdPrims' numPrimsIncrement reset' s =
     s\<lparr>pfnPaNextFunc := pfnPaNextFunc',
       nextNumSimdPrims := numSimdPrims',
       nextNumPrimsIncrement := numPrimsIncrement,
       nextReset := reset',
       pfnPaSingleFunc := pfnPaNextSingleFunc\<rparr>"

definition PA_STATE_OPT_Reset :: "PA_STATE_OPT \<Rightarrow> PA_STATE_OPT" where
  "PA_STATE_OPT_Reset s =
     s\<lparr>pfnPaFunc := pfnPaFuncReset s,
       numPrimsComplete := 0,
       numSimdPrims := 0,
       cur := 0,
       prev := 0,
       first := 0,
       counter := 0,
       reset := False\<rparr>"

definition PA_STATE_OPT_GetNextVsOutput :: "PA_STATE_OPT \<Rightarrow> error + 32 word \<times> PA_STATE_OPT" where
  "PA_STATE_OPT_GetNextVsOutput s =
     (let numSimdVerts = streamSizeInVerts s div KNOB_SIMD_WIDTH in
      if numSimdVerts = 0 then Inl DivideByZero
      else
        let s = s\<lparr>prev := cur s\<rparr>;
            s = s\<lparr>cur := word_of_nat (unat (counter s) mod numSimdVerts)\<rparr>
        in Inr (cur s, s))"

definition PA_STATE_OPT_GetNextStreamOutput :: "PA_STATE_OPT \<Rightarrow> bool \<times> PA_STATE_OPT" where
  "PA_STATE_OPT_GetNextStreamOutput s =
     (let s = s\<lparr>prev := cur s\<rparr>;
          s = s\<lparr>cur := counter s\<rparr>
      in (PA_STATE_OPT_HasWork s, s))"

definition PA_STATE_OPT_GetPrimID :: "32 word \<Rightarrow> PA_STATE_OPT \<Rightarrow> 32 word list" where
  "PA_STATE_OPT_GetPrimID startID s =
     map (\<lambda>x. x + (startID + primIDIncr s * (numPrimsComplete s div word_of_nat KNOB_SIMD_WIDTH)))
       (primID s)"

section \<open>Triangle strips with adjacency (claim C7)\<close>

text \<open>
  Claim C7. \<^verbatim>\<open>TOP_TRI_STRIP_ADJ\<close> with the geometry stage disabled, no cuts, on the
  ring of 48 vertices. For the 7 vertices 0 to 6: after the vertices 0 to 5 no
  primitive is assembled and the winding is not reversed; vertex 6 emits the first
  primitive, with the gather indices 0, 2, 4, and flips the winding bit. For the 10
  vertices 0 to 9 the primitives are 0 2 4, then 2 6 4 (reversed), then 4 6 8. In any
  state, a call of the topology function (not the finishing call) that emits a
  primitive flips the winding bit, so the bit flips between consecutive primitives.
\<close>

theorem tri_strip_adj_no_gs:
  "(\<exists>s s6 s7 s8.
     bindE (PA_STATE_CUT_init 48 cuts 7 na TOP_TRI_STRIP_ADJ False False v0 o0 u0) (feed 0) = Inr s \<and>
     bindE (bindE (bindE (bindE (bindE (ProcessVerts_body s) ProcessVerts_body) ProcessVerts_body)
        ProcessVerts_body) ProcessVerts_body) ProcessVerts_body = Inr s6 \<and>
     batch_prims s6 = [] \<and> \<not> reverseWinding s6 \<and>
     ProcessVerts_body s6 = Inr s7 \<and>
     batch_prims s7 = [[0, 2, 4]] \<and> reverseWinding s7 \<and>
     Assemble_state szv s = Inr (True, s8) \<and> batch_prims s8 = [[0, 2, 4]]) \<and>
   (\<exists>s s'.
     bindE (PA_STATE_CUT_init 48 cuts 10 na TOP_TRI_STRIP_ADJ False False v0 o0 u0)
       (\<lambda>s. bindE (feed 0 s) (feed 0)) = Inr s \<and>
     Assemble_state szv s = Inr (True, s') \<and>
     batch_prims s' = [[0, 2, 4], [2, 6, 4], [4, 6, 8]]) \<and>
   (\<forall>gs idx t t'.
     ProcessVertTriStripAdj gs idx False t = Inr t' \<and>
     numPrimsAssembled t' = numPrimsAssembled t + 1 \<longrightarrow>
     reverseWinding t' = (\<not> reverseWinding t))"
proof -
  have seven: "\<exists>s s6 s7 s8.
     bindE (PA_STATE_CUT_init 48 cuts 7 na TOP_TRI_STRIP_ADJ False False v0 o0 u0) (feed 0) = Inr s \<and>
     bindE (bindE (bindE (bindE (bindE (ProcessVerts_body s) ProcessVerts_body) ProcessVerts_body)
        ProcessVerts_body) ProcessVerts_body) ProcessVerts_body = Inr s6 \<and>
     batch_prims s6 = [] \<and> \<not> reverseWinding s6 \<and>
     ProcessVerts_body s6 = Inr s7 \<and>
     batch_prims s7 = [[0, 2, 4]] \<and> reverseWinding s7 \<and>
     Assemble_state szv s = Inr (True, s8) \<and> batch_prims s8 = [[0, 2, 4]]"
    by (simp add: init_defs pa_defs asm_defs strip_adj_defs)
  have ten: "\<exists>s s'.
     bindE (PA_STATE_CUT_init 48 cuts 10 na TOP_TRI_STRIP_ADJ False False v0 o0 u0)
       (\<lambda>s. bindE (feed 0 s) (feed 0)) = Inr s \<and>
     Assemble_state szv s = Inr (True, s') \<and>
     batch_prims s' = [[0, 2, 4], [2, 6, 4], [4, 6, 8]]"
    by (simp add: init_defs pa_defs asm_defs strip_adj_defs)
  have "reverseWinding t' = (\<not> reverseWinding t)"
    if "ProcessVertTriStripAdj gs idx False t = Inr t'"
      and "numPrimsAssembled t' = numPrimsAssembled t + 1" for gs idx t t'
    using that
    by (auto simp: strip_adj_defs Let_def bindE_eq_Inr put_index_def split: if_splits)
  then have flip: "\<forall>gs idx t t'.
     ProcessVertTriStripAdj gs idx False t = Inr t' \<and>
     numPrimsAssembled t' = numPrimsAssembled t + 1 \<longrightarrow>
     reverseWinding t' = (\<not> reverseWinding t)"
    by blast
  show ?thesis
    by (rule conjI [OF seven conjI [OF ten flip]])
qed

text \<open>
  The state of the 7-vertex strip before its vertex 6 (the vertices 0 to 5 taken): the
  call of the topology function for vertex 6 emits a primitive and flips the bit.
\<close>

definition strip_adj_six :: PA_STATE_CUT where
  "strip_adj_six = projr
     (bindE (PA_STATE_CUT_init 48 (\<lambda>_. 0) 7 1 TOP_TRI_STRIP_ADJ False False (\<lambda>_. 0) (\<lambda>_ _. 0) 0)
        (\<lambda>s. bindE (feed 0 s)
          (\<lambda>s. bindE (bindE (bindE (bindE (bindE (ProcessVerts_body s) ProcessVerts_body)
             ProcessVerts_body) ProcessVerts_body) ProcessVerts_body) ProcessVerts_body)))"

theorem tri_strip_adj_no_gs_witness:
  "\<exists>t'. ProcessVertTriStripAdj False 6 False strip_adj_six = Inr t' \<and>
     numPrimsAssembled t' = numPrimsAssembled strip_adj_six + 1 \<and>
     prim_indices t' 0 = [0, 2, 4] \<and>
     \<not> reverseWinding strip_adj_six \<and> reverseWinding t'"
proof -
  have "\<exists>t'. ProcessVertTriStripAdj False 6 False strip_adj_six = Inr t' \<and>
     numPrimsAssembled t' = numPrimsAssembled strip_adj_six + 1 \<and>
     prim_indices t' 0 = [0, 2, 4] \<and> \<not> reverseWinding strip_adj_six"
    by (simp add: strip_adj_six_def init_defs pa_defs asm_defs strip_adj_defs)
  then obtain t' where t: "ProcessVertTriStripAdj False 6 False strip_adj_six = Inr t'"
    "numPrimsAssembled t' = numPrimsAssembled strip_adj_six + 1"
    "prim_indices t' 0 = [0, 2, 4]" "\<not> reverseWinding strip_adj_six"
    by blast
  note flip = conjunct2 [OF conjunct2 [OF tri_strip_adj_no_gs]]
  from flip t(1,2) have "reverseWinding t' = (\<not> reverseWinding strip_adj_six)"
    by blast
  with t show ?thesis by blast
qed

section \<open>The store-full check (claim C3)\<close>

text \<open>
  A triangle strip of 100 vertices on the ring of 48, with the vertices from 11 on all
  marked cut: the masks of the batches.
\<close>

definition overwrite_cuts :: "nat \<Rightarrow> 8 word" where
  "overwrite_cuts j = (if j = 0 then 0 else if j = 1 then 248 else 255)"

definition overwrite_state :: "error + PA_STATE_CUT" where
  "overwrite_state =
     bindE (PA_STATE_CUT_init 48 (\<lambda>_. 0) 100 1 TOP_TRIANGLE_STRIP False False (\<lambda>_. 0) (\<lambda>_ _. 0) 0)
       (guarded_steps 7 overwrite_cuts 128 0)"

text \<open>
  Claim C3, evaluated where it fails. Seven iterations of the draw loop run, the
  store-full check passing before each. The state then has one primitive of the
  unfinished batch in the gather table, with the vertices 8, 9 and 10; the tail is 10
  and the head 8. \<^verbatim>\<open>IsVertexStoreFull\<close> is false, as 16 is not 10, and the slot
  \<^verbatim>\<open>GetNextVsOutput\<close> returns for the next batch is the batch (number 1) that holds
  the three vertices.
\<close>

theorem store_full_misses_unaligned_tail:
  "\<exists>s k s'. overwrite_state = Inr s \<and>
     headVertex s = 8 \<and> tailVertex s = 10 \<and> HasWork s \<and>
     batch_prims s = [[8, 9, 10]] \<and>
     IsVertexStoreFull s = Inr False \<and>
     GetNextVsOutput s = Inr (k, s') \<and>
     map (\<lambda>v. v div KNOB_SIMD_WIDTH = k) (concat (batch_prims s)) = [True, True, True]"
  by (simp add: overwrite_state_def overwrite_cuts_def init_defs pa_defs asm_defs draw_defs
        guarded_steps_unfold)


section \<open>Idempotence of \<^verbatim>\<open>Assemble\<close> (claim C5)\<close>

text \<open>
  Example: a triangle list of 3 vertices on a ring of 48, one batch fed.
\<close>

definition example_tri_list :: "error + PA_STATE_CUT" where
  "example_tri_list =
     bindE (PA_STATE_CUT_init 48 (\<lambda>_. 0) 3 1 TOP_TRIANGLE_LIST False False (\<lambda>_. 0) (\<lambda>_ _. 0) 0)
       (feed 0)"

text \<open>
  Claim C5. In every reachable state of the cut-aware assembler, when a call of
  \<^verbatim>\<open>Assemble\<close> returns (with result \<open>ok\<close>, output \<open>out\<close> and state \<open>s1\<close>), the
  same call repeated in \<open>s1\<close>, with no \<^verbatim>\<open>NextPrim\<close> and no new input in between,
  returns the same result \<open>ok\<close>, writes the same output \<open>out\<close> and leaves the state
  \<open>s1\<close> as it is: no cursor (\<^verbatim>\<open>curVertex\<close>, \<^verbatim>\<open>tailVertex\<close>, \<^verbatim>\<open>headVertex\<close>,
  \<^verbatim>\<open>numPrimsAssembled\<close>) moves. As \<open>s1\<close> is a fixed point, this holds for any
  number of repeated calls.
\<close>

theorem Assemble_idempotent:
  assumes "reachable s" and "Assemble mem szv slot s = Inr (ok, out, s1)"
  shows "Assemble mem szv slot s1 = Inr (ok, out, s1)"
proof -
  from assms(2) have st: "Assemble_state szv s = Inr (ok, s1)"
    and out: "out = (if ok then gather_prims mem slot s1 else [])"
    by (auto simp: Assemble_def bindE_eq_Inr)
  from Assemble_state_idem [OF st reachable_adj_inv [OF assms(1)]] out
  show ?thesis by (simp add: Assemble_def)
qed

theorem Assemble_idempotent_witness:
  "\<exists>s out s1.
     example_tri_list = Inr s \<and>
     Assemble (\<lambda>a. a) 128 0 s = Inr (True, out, s1) \<and> batch_prims s1 = [[0, 1, 2]] \<and>
     Assemble (\<lambda>a. a) 128 0 s1 = Inr (True, out, s1)"
proof -
  define s where "s = projr example_tri_list"
  have e: "example_tri_list = Inr s"
    unfolding s_def
    by (simp add: example_tri_list_def init_defs pa_defs)
  then obtain s0 where
    "PA_STATE_CUT_init 48 (\<lambda>_. 0) 3 1 TOP_TRIANGLE_LIST False False (\<lambda>_. 0) (\<lambda>_ _. 0) 0 = Inr s0"
    "feed 0 s0 = Inr s"
    by (auto simp: example_tri_list_def bindE_eq_Inr)
  then have r: "reachable s"
    by (blast intro: r_init reachable_feed)
  have "\<exists>out s1. Assemble (\<lambda>a. a) 128 0 s = Inr (True, out, s1) \<and> batch_prims s1 = [[0, 1, 2]]"
    unfolding s_def
    by (simp add: example_tri_list_def init_defs pa_defs
          Assemble_def Assemble_state_def ComputeOffsets_def NumPrims_def
          batch_prims_def prim_indices_def ProcessVerts_loop.simps)
  then obtain out s1 where a: "Assemble (\<lambda>a. a) 128 0 s = Inr (True, out, s1)"
    and n: "batch_prims s1 = [[0, 1, 2]]"
    by blast
  from Assemble_idempotent [OF r a] e a n show ?thesis
    by blast
qed

section \<open>The remaining-primitive count of \<^verbatim>\<open>PA_TESS\<close> (claim C10)\<close>

lemma PA_TESS_NumPrims_le: "PA_TESS_NumPrims s \<le> m_numPrims s"
  by (simp add: PA_TESS_NumPrims_def KNOB_SIMD_WIDTH_def)

lemma unat_PA_TESS_NumPrims: "unat (PA_TESS_NumPrims s) = min (unat (m_numPrims s)) 8"
  by (simp add: PA_TESS_NumPrims_def KNOB_SIMD_WIDTH_def min_def word_le_nat_alt)

lemma PA_TESS_NextPrim_numPrims:
  "unat (m_numPrims (snd (PA_TESS_NextPrim s))) = unat (m_numPrims s) - min (unat (m_numPrims s)) 8"
  using PA_TESS_NumPrims_le [of s]
  by (simp add: PA_TESS_NextPrim_def Let_def unat_sub unat_PA_TESS_NumPrims)

lemma PA_TESS_retire_numPrims:
  "unat (m_numPrims (PA_TESS_retire k s)) = unat (m_numPrims s) - 8 * k"
  by (induction k arbitrary: s) (auto simp: PA_TESS_NextPrim_numPrims)

text \<open>A tessellation assembler with 19 triangles to assemble.\<close>

definition example_tess :: PA_TESS where
  "example_tess = projr (PA_TESS_init 1 1 (\<lambda>k. 0) 19 TOP_TRIANGLE_LIST)"

text \<open>
  Claim C10. \<^verbatim>\<open>NumPrims\<close> of the tessellation assembler is the minimum of
  \<^verbatim>\<open>m_numPrims\<close> and the batch width, so it is at most 8 and at most \<^verbatim>\<open>m_numPrims\<close>;
  \<^verbatim>\<open>NextPrim\<close> takes exactly that value off \<^verbatim>\<open>m_numPrims\<close>, without wrapping below
  zero, moves each of the three index pointers on by it and returns \<^verbatim>\<open>HasWork\<close>;
  after \<open>k\<close> calls \<^verbatim>\<open>m_numPrims\<close> is the initial count less \<open>8 k\<close>, stopping at 0: it
  never grows, and \<^verbatim>\<open>HasWork\<close> is false exactly from the call on at which it is 0.
\<close>

theorem PA_TESS_remaining_count:
  "PA_TESS_NumPrims s = min (m_numPrims s) 8 \<and>
   unat (PA_TESS_NumPrims s) \<le> KNOB_SIMD_WIDTH \<and>
   unat (PA_TESS_NumPrims s) \<le> unat (m_numPrims s) \<and>
   unat (m_numPrims (snd (PA_TESS_NextPrim s))) = unat (m_numPrims s) - unat (PA_TESS_NumPrims s) \<and>
   m_ppIndices (snd (PA_TESS_NextPrim s)) 0 = m_ppIndices s 0 + unat (PA_TESS_NumPrims s) \<and>
   m_ppIndices (snd (PA_TESS_NextPrim s)) 1 = m_ppIndices s 1 + unat (PA_TESS_NumPrims s) \<and>
   m_ppIndices (snd (PA_TESS_NextPrim s)) 2 = m_ppIndices s 2 + unat (PA_TESS_NumPrims s) \<and>
   fst (PA_TESS_NextPrim s) = PA_TESS_HasWork (snd (PA_TESS_NextPrim s)) \<and>
   PA_TESS_HasWork s = (m_numPrims s \<noteq> 0) \<and>
   unat (m_numPrims (PA_TESS_retire k s)) = unat (m_numPrims s) - 8 * k \<and>
   unat (m_numPrims (PA_TESS_retire (Suc k) s)) \<le> unat (m_numPrims (PA_TESS_retire k s)) \<and>
   PA_TESS_HasWork (PA_TESS_retire k s) = (8 * k < unat (m_numPrims s))"
proof -
  have a: "PA_TESS_NumPrims s = min (m_numPrims s) 8"
    by (simp add: PA_TESS_NumPrims_def KNOB_SIMD_WIDTH_def)
  have b: "unat (PA_TESS_NumPrims s) \<le> KNOB_SIMD_WIDTH" "unat (PA_TESS_NumPrims s) \<le> unat (m_numPrims s)"
    by (simp_all add: unat_PA_TESS_NumPrims KNOB_SIMD_WIDTH_def)
  have c: "unat (m_numPrims (snd (PA_TESS_NextPrim s))) = unat (m_numPrims s) - unat (PA_TESS_NumPrims s)"
    by (simp add: PA_TESS_NextPrim_numPrims unat_PA_TESS_NumPrims)
  have d: "m_ppIndices (snd (PA_TESS_NextPrim s)) 0 = m_ppIndices s 0 + unat (PA_TESS_NumPrims s)"
    "m_ppIndices (snd (PA_TESS_NextPrim s)) 1 = m_ppIndices s 1 + unat (PA_TESS_NumPrims s)"
    "m_ppIndices (snd (PA_TESS_NextPrim s)) 2 = m_ppIndices s 2 + unat (PA_TESS_NumPrims s)"
    by (simp_all add: PA_TESS_NextPrim_def Let_def)
  have e: "fst (PA_TESS_NextPrim s) = PA_TESS_HasWork (snd (PA_TESS_NextPrim s))"
    by (simp add: PA_TESS_NextPrim_def Let_def)
  have f: "PA_TESS_HasWork s = (m_numPrims s \<noteq> 0)"
    by (simp add: PA_TESS_HasWork_def)
  have g: "unat (m_numPrims (PA_TESS_retire k s)) = unat (m_numPrims s) - 8 * k"
    by (rule PA_TESS_retire_numPrims)
  have h: "unat (m_numPrims (PA_TESS_retire (Suc k) s)) \<le> unat (m_numPrims (PA_TESS_retire k s))"
    by (simp only: PA_TESS_retire_numPrims) simp
  have i: "PA_TESS_HasWork (PA_TESS_retire k s) = (8 * k < unat (m_numPrims s))"
  proof -
    have "(m_numPrims (PA_TESS_retire k s) = 0) = (unat (m_numPrims (PA_TESS_retire k s)) = 0)"
      by (simp add: unat_eq_0)
    then show ?thesis
      by (simp only: PA_TESS_HasWork_def PA_TESS_retire_numPrims) auto
  qed
  show ?thesis by (intro conjI a b c d e f g h i)
qed

theorem PA_TESS_remaining_count_witness:
  "unat (m_numPrims example_tess) = 19 \<and>
   unat (m_numPrims (PA_TESS_retire 2 example_tess)) = 3 \<and>
   PA_TESS_HasWork (PA_TESS_retire 2 example_tess) \<and>
   unat (m_numPrims (PA_TESS_retire 3 example_tess)) = 0 \<and>
   \<not> PA_TESS_HasWork (PA_TESS_retire 3 example_tess)"
proof -
  have m: "unat (m_numPrims example_tess) = 19"
    by (simp add: example_tess_def PA_TESS_init_def)
  note two = PA_TESS_remaining_count [of example_tess 2]
  note three = PA_TESS_remaining_count [of example_tess 3]
  have "unat (m_numPrims (PA_TESS_retire 2 example_tess)) = 3"
    using two [THEN conjunct2, THEN conjunct2, THEN conjunct2, THEN conjunct2, THEN conjunct2, THEN conjunct2, THEN conjunct2, THEN conjunct2, THEN conjunct2, THEN conjunct1] by (simp add: m)
  moreover have "PA_TESS_HasWork (PA_TESS_retire 2 example_tess)"
    using two [THEN conjunct2, THEN conjunct2, THEN conjunct2, THEN conjunct2, THEN conjunct2, THEN conjunct2, THEN conjunct2, THEN conjunct2, THEN conjunct2, THEN conjunct2, THEN conjunct2] by (simp add: m)
  moreover have "unat (m_numPrims (PA_TESS_retire 3 example_tess)) = 0"
    using three [THEN conjunct2, THEN conjunct2, THEN conjunct2, THEN conjunct2, THEN conjunct2, THEN conjunct2, THEN conjunct2, THEN conjunct2, THEN conjunct2, THEN conjunct1] by (simp add: m)
  moreover have "\<not> PA_TESS_HasWork (PA_TESS_retire 3 example_tess)"
    using three [THEN conjunct2, THEN conjunct2, THEN conjunct2, THEN conjunct2, THEN conjunct2, THEN conjunct2, THEN conjunct2, THEN conjunct2, THEN conjunct2, THEN conjunct2, THEN conjunct2] by (simp add: m)
  ultimately show ?thesis using m by blast
qed


section \<open>The gather of \<^verbatim>\<open>PA_TESS\<close> (claim C6)\<close>

text \<open>
  The value stored at an index in the lane array of component \<open>c\<close> of the attribute
  \<open>slot\<close>: what the claim compares the gathered value with.
\<close>

definition stored_value :: "(int \<Rightarrow> 'a) \<Rightarrow> PA_TESS \<Rightarrow> 32 word \<Rightarrow> nat \<Rightarrow> 32 word \<Rightarrow> 'a" where
  "stored_value mem s slot c index = mem (lane_array s slot c + uint index)"

lemma maskGen_nth: "j < 16 \<Longrightarrow> maskGen ! j = (if j < 8 then -1 else 0)"
  by (simp add: maskGen_def KNOB_SIMD_WIDTH_def nth_append)

lemma GenPrimMask_lane:
  assumes "GenPrimMask n = Inr m" and "l < 8"
  shows "bit (m ! l) 31 = (l < n)"
proof -
  from assms(1) have n: "n \<le> 8" and m: "m = take 8 (drop (8 - n) maskGen)"
    by (auto simp: GenPrimMask_def KNOB_SIMD_WIDTH_def split: if_splits)
  have len: "length maskGen = 16"
    by (simp add: maskGen_def KNOB_SIMD_WIDTH_def)
  have "m ! l = maskGen ! (8 - n + l)"
    using assms(2) n by (simp add: m len)
  also have "\<dots> = (if 8 - n + l < 8 then -1 else 0)"
    using assms(2) n by (intro maskGen_nth) simp
  finally show ?thesis using n assms(2) by auto
qed

lemma PA_TESS_Assemble_lane:
  assumes "PA_TESS_Assemble idx mem slot s = Inr (True, verts)"
    and "v < unat (m_numVertsPerPrim s)" and "c < 4" and "i < 8"
  shows "verts ! v ! c ! i =
    (if i < unat (PA_TESS_NumPrims s)
     then mem (lane_array s slot c + sint (idx v (m_ppIndices s v + i))) else 0)"
proof -
  from assms(1) obtain m where m: "GenPrimMask (unat (PA_TESS_NumPrims s)) = Inr m"
    and verts: "verts = map (\<lambda>i.
                  let indices = map (\<lambda>l. idx i (m_ppIndices s i + l)) [0..<KNOB_SIMD_WIDTH]
                  in map (\<lambda>c. mask_i32gather_ps (replicate KNOB_SIMD_WIDTH 0) mem
                                (lane_array s slot c) indices m) [0..<4])
                 [0..<unat (m_numVertsPerPrim s)]"
    by (auto simp: PA_TESS_Assemble_def Let_def bindE_eq_Inr split: if_splits)
  from GenPrimMask_lane [OF m assms(4)] assms(2,3,4) show ?thesis
    by (simp add: verts mask_i32gather_ps_def KNOB_SIMD_WIDTH_def Let_def)
qed

lemma sint_small: "w < 2 ^ 31 \<Longrightarrow> sint w = uint w" for w :: "32 word"
proof -
  assume "w < 2 ^ 31"
  then have "uint w < 2 ^ 31"
    by (simp add: word_less_def)
  moreover have "- (2 ^ 31) \<le> uint w"
    by (rule order_trans [of _ 0]) simp_all
  ultimately have "signed_take_bit 31 (uint w) = uint w"
    by (rule signed_take_bit_int_eq_self [rotated])
  then show ?thesis
    by (simp add: sint_uint)
qed

lemmas tess_defs = PA_TESS_init_def PA_TESS_Assemble_def PA_TESS_AssembleSingle_def
  PA_TESS_NumPrims_def GenPrimMask_def maskGen_def mask_i32gather_ps_def lane_array_def
  stored_value_def KNOB_SIMD_WIDTH_def Let_def upt_small

text \<open>
  Example: two triangles with the indices 0 1 2 and 3 4 5. The vertex memory holds at
  every position the position itself.
\<close>

definition example_tess_tris :: PA_TESS where
  "example_tess_tris = projr (PA_TESS_init 1 1 (\<lambda>k. 0) 2 TOP_TRIANGLE_LIST)"

text \<open>
  Example: one point of an attribute whose lane arrays have \<open>2^31 + 8\<close> floats each
  (\<^verbatim>\<open>m_attributeStrideInVectors\<close> is \<open>2^28 + 1\<close>), with the index \<open>2^31\<close> at every
  position of the index arrays: the index lies in the lane array of every component.
  The vertex memory holds at every position the position itself.
\<close>

definition example_tess_wide :: PA_TESS where
  "example_tess_wide = projr (PA_TESS_init 268435457 1 (\<lambda>k. 0) 1 TOP_POINT_LIST)"

lemma sint_large: "2 ^ 31 \<le> w \<Longrightarrow> sint w = uint w - 2 ^ 32" for w :: "32 word"
proof -
  assume "2 ^ 31 \<le> w"
  then have lo: "2147483648 \<le> uint w"
    by (simp add: word_le_def)
  have hi: "uint w < 4294967296"
    using uint_bounded [of w] by simp
  have "uint w + 2147483648 = (uint w - 2147483648) + 4294967296"
    by simp
  then have "(uint w + 2147483648) mod 4294967296 = (uint w - 2147483648) mod 4294967296"
    by (simp only: mod_add_self2)
  also have "\<dots> = uint w - 2147483648"
    using lo hi by (intro mod_pos_pos_trivial) simp_all
  finally have "take_bit 32 (uint w + 2147483648) = uint w - 2147483648"
    by (simp add: take_bit_eq_mod)
  then have "signed_take_bit 31 (uint w) = uint w - 4294967296"
    by (simp add: signed_take_bit_eq_take_bit_shift)
  then show ?thesis
    by (simp add: sint_uint)
qed

text \<open>
  Claim C6 fails for \<^verbatim>\<open>Assemble\<close> at an index from \<open>2^31\<close> on. The gather reads its
  32-bit indices as signed, while \<^verbatim>\<open>AssembleSingle\<close> indexes with the \<^verbatim>\<open>uint32_t\<close>. In
  the example the lane arrays of the four components start at the floats 0,
  \<open>2^31 + 8\<close>, \<open>2^32 + 16\<close> and \<open>3 * 2^31 + 24\<close>, so the index \<open>2^31\<close> lies in each of
  them; \<^verbatim>\<open>Assemble\<close> writes for primitive 0 the floats \<open>2^31\<close> positions before the
  start of each lane array, and zero in the lanes past \<^verbatim>\<open>NumPrims()\<close>; the values
  stored at the index, which \<^verbatim>\<open>AssembleSingle\<close> writes, are those \<open>2^31\<close> positions
  after the start.
\<close>

theorem PA_TESS_Assemble_sign_extends:
  "PA_TESS_NumPrims example_tess_wide = 1 \<and>
   map (lane_array example_tess_wide 0) [0, 1, 2, 3] = [0, 2147483656, 4294967312, 6442450968] \<and>
   PA_TESS_Assemble (\<lambda>k p. 2147483648) (\<lambda>a. a) 0 example_tess_wide =
     Inr (True, [[[-2147483648, 0, 0, 0, 0, 0, 0, 0], [8, 0, 0, 0, 0, 0, 0, 0],
                  [2147483664, 0, 0, 0, 0, 0, 0, 0], [4294967320, 0, 0, 0, 0, 0, 0, 0]]]) \<and>
   map (\<lambda>c. stored_value (\<lambda>a. a) example_tess_wide 0 c 2147483648) [0, 1, 2, 3] =
     [2147483648, 4294967304, 6442450960, 8589934616] \<and>
   PA_TESS_AssembleSingle (\<lambda>k p. 2147483648) (\<lambda>a. a) 0 0 example_tess_wide =
     Inr [[2147483648, 4294967304, 6442450960, 8589934616]]"
  by (simp add: example_tess_wide_def tess_defs)

text \<open>
  In general: a lane below \<^verbatim>\<open>NumPrims()\<close> whose index is \<open>2^31\<close> or more is loaded by
  \<^verbatim>\<open>Assemble\<close> from \<open>2^32\<close> floats before the position of the value stored at the
  index.
\<close>

lemma PA_TESS_Assemble_high_index:
  assumes "PA_TESS_Assemble idx mem slot s = Inr (True, verts)"
    and "v < unat (m_numVertsPerPrim s)" and "c < 4" and "i < unat (PA_TESS_NumPrims s)"
    and "i < 8" and "2 ^ 31 \<le> idx v (m_ppIndices s v + i)"
  shows "verts ! v ! c ! i =
    mem (lane_array s slot c + uint (idx v (m_ppIndices s v + i)) - 2 ^ 32)"
  using PA_TESS_Assemble_lane [OF assms(1,2,3,5)] assms(4) sint_large [OF assms(6)]
  by (simp add: add_diff_eq)

text \<open>
  What holds of the round trip. When \<^verbatim>\<open>Assemble\<close> of the tessellation assembler returns
  (its assertion on the slot holds), then for every vertex \<open>v\<close> of the primitive,
  component \<open>c < 4\<close> and lane \<open>i < 8\<close>: if \<open>i < NumPrims()\<close> and the index
  \<^verbatim>\<open>m_ppIndices[v][i]\<close> is below \<open>2^31\<close>, \<^verbatim>\<open>Assemble\<close> returns true and the value it
  writes for primitive \<open>i\<close>, vertex \<open>v\<close>, component \<open>c\<close> is the value stored at that
  index in the lane array of component \<open>c\<close> of the attribute; a lane \<open>i \<ge> NumPrims()\<close>
  of a batch assembled is zero; and for \<open>i < NumPrims()\<close> \<^verbatim>\<open>AssembleSingle\<close> of
  primitive \<open>i\<close> writes the value stored at the index \<^verbatim>\<open>m_ppIndices[v][i]\<close>, whatever
  the index.
\<close>

theorem PA_TESS_gather_roundtrip:
  assumes "PA_TESS_Assemble idx mem slot s = Inr (ok, verts)"
    and "v < unat (m_numVertsPerPrim s)" and "c < 4" and "i < KNOB_SIMD_WIDTH"
  shows "(i < unat (PA_TESS_NumPrims s) \<and> idx v (m_ppIndices s v + i) < 2 ^ 31 \<longrightarrow>
            ok \<and> verts ! v ! c ! i = stored_value mem s slot c (idx v (m_ppIndices s v + i))) \<and>
         (ok \<and> unat (PA_TESS_NumPrims s) \<le> i \<longrightarrow> verts ! v ! c ! i = 0) \<and>
         (i < unat (PA_TESS_NumPrims s) \<longrightarrow>
            (\<exists>tri. PA_TESS_AssembleSingle idx mem slot (word_of_nat i) s = Inr tri \<and>
               tri ! v ! c = stored_value mem s slot c (idx v (m_ppIndices s v + i))))"
proof -
  from assms(4) have i8: "i < 8" by (simp add: KNOB_SIMD_WIDTH_def)
  from assms(1) have slot: "slot < m_numAttributes s"
    by (auto simp: PA_TESS_Assemble_def split: if_splits)
  have ok: "ok" if "i < unat (PA_TESS_NumPrims s)"
  proof -
    from that have "PA_TESS_NumPrims s \<noteq> 0" by auto
    with assms(1) show ?thesis
      by (auto simp: PA_TESS_Assemble_def Let_def bindE_eq_Inr split: if_splits)
  qed
  have lane: "verts ! v ! c ! i =
    (if i < unat (PA_TESS_NumPrims s)
     then mem (lane_array s slot c + sint (idx v (m_ppIndices s v + i))) else 0)" if ok
  proof -
    from assms(1) that have "PA_TESS_Assemble idx mem slot s = Inr (True, verts)"
      by simp
    then show ?thesis
      by (rule PA_TESS_Assemble_lane [OF _ assms(2,3) i8])
  qed
  have one: "i < unat (PA_TESS_NumPrims s) \<and> idx v (m_ppIndices s v + i) < 2 ^ 31 \<longrightarrow>
            ok \<and> verts ! v ! c ! i = stored_value mem s slot c (idx v (m_ppIndices s v + i))"
    using ok lane by (auto simp: stored_value_def sint_small)
  have two: "ok \<and> unat (PA_TESS_NumPrims s) \<le> i \<longrightarrow> verts ! v ! c ! i = 0"
    using lane by auto
  have three: "i < unat (PA_TESS_NumPrims s) \<longrightarrow>
            (\<exists>tri. PA_TESS_AssembleSingle idx mem slot (word_of_nat i) s = Inr tri \<and>
               tri ! v ! c = stored_value mem s slot c (idx v (m_ppIndices s v + i)))"
  proof
    assume lt: "i < unat (PA_TESS_NumPrims s)"
    have u: "unat (word_of_nat i :: 32 word) = i"
      using i8 by (simp add: unat_of_nat)
    then have "(word_of_nat i :: 32 word) < PA_TESS_NumPrims s"
      using lt by (simp add: word_less_nat_alt)
    with slot assms(2,3) u show "\<exists>tri. PA_TESS_AssembleSingle idx mem slot (word_of_nat i) s = Inr tri \<and>
               tri ! v ! c = stored_value mem s slot c (idx v (m_ppIndices s v + i))"
      by (simp add: PA_TESS_AssembleSingle_def Let_def stored_value_def)
  qed
  show ?thesis by (intro conjI one two three)
qed


theorem PA_TESS_gather_roundtrip_witness:
  "\<exists>verts tri.
     PA_TESS_Assemble (\<lambda>k p. word_of_nat (3 * p + k)) (\<lambda>a. a) 0 example_tess_tris = Inr (True, verts) \<and>
     verts ! 1 ! 2 ! 1 = 20 \<and> verts ! 1 ! 2 ! 5 = 0 \<and>
     PA_TESS_AssembleSingle (\<lambda>k p. word_of_nat (3 * p + k)) (\<lambda>a. a) 0 1 example_tess_tris = Inr tri \<and>
     tri ! 1 ! 2 = 20"
proof -
  let ?idx = "\<lambda>k p. word_of_nat (3 * p + k) :: 32 word"
  let ?mem = "\<lambda>a::int. a"
  have "\<exists>verts. PA_TESS_Assemble ?idx ?mem 0 example_tess_tris = Inr (True, verts)"
    by (simp add: example_tess_tris_def tess_defs)
  then obtain verts where a: "PA_TESS_Assemble ?idx ?mem 0 example_tess_tris = Inr (True, verts)"
    by blast
  have facts: "unat (m_numVertsPerPrim example_tess_tris) = 3"
    "unat (PA_TESS_NumPrims example_tess_tris) = 2" "\<And>k. m_ppIndices example_tess_tris k = 0"
    "\<And>w. stored_value ?mem example_tess_tris 0 2 w = 16 + uint w"
    by (simp_all add: example_tess_tris_def tess_defs)
  note one = PA_TESS_gather_roundtrip [OF a, of 1 2 1]
  note five = PA_TESS_gather_roundtrip [OF a, of 1 2 5]
  from one have "verts ! 1 ! 2 ! 1 = 20"
    by (simp add: facts KNOB_SIMD_WIDTH_def)
  moreover from five have "verts ! 1 ! 2 ! 5 = 0"
    by (simp add: facts KNOB_SIMD_WIDTH_def)
  moreover from one obtain tri where
    "PA_TESS_AssembleSingle ?idx ?mem 0 1 example_tess_tris = Inr tri" "tri ! 1 ! 2 = 20"
    by (auto simp: facts KNOB_SIMD_WIDTH_def)
  ultimately show ?thesis using a by blast
qed


section \<open>\<^verbatim>\<open>NumPrims\<close> of the optimized assembler (claim C4)\<close>

lemma unat_add32: "unat (a + b) = (unat a + unat b) mod 4294967296" for a b :: "32 word"
  by (simp add: unat_word_ariths)

lemma unat_lt32: "unat a < 4294967296" for a :: "32 word"
  using unsigned_less [of a, where 'a = nat] by simp

lemma opt_excess:
  fixes a b n :: "32 word"
  assumes "a < n" and "b \<le> 8" and "n < a + b"
  shows "unat (a + b - n) = unat a + unat b - unat n"
    and "0 < unat (a + b - n)" and "unat (a + b - n) < unat b"
proof -
  have A: "unat a < unat n" using assms(1) by (simp add: word_less_nat_alt)
  have B: "unat b \<le> 8" using assms(2) by (simp add: word_le_nat_alt)
  have N: "unat n < 4294967296" by (rule unat_lt32)
  have nlt: "unat n < (unat a + unat b) mod 4294967296"
    using assms(3) by (simp add: word_less_nat_alt unat_add32)
  have noov: "unat a + unat b < 4294967296"
  proof (rule ccontr)
    assume "\<not> unat a + unat b < 4294967296"
    then have ge: "4294967296 \<le> unat a + unat b" by simp
    then have "(unat a + unat b) mod 4294967296 = (unat a + unat b - 4294967296) mod 4294967296"
      by (rule le_mod_geq)
    also have "\<dots> = unat a + unat b - 4294967296"
      using A B N by (intro mod_less) linarith
    finally have "(unat a + unat b) mod 4294967296 < unat n"
      using A B ge by linarith
    with nlt show False by simp
  qed
  then have sum: "unat (a + b) = unat a + unat b"
    by (simp add: unat_add32)
  have "n \<le> a + b" using assms(3) by simp
  then have e: "unat (a + b - n) = unat (a + b) - unat n"
    by (simp add: unat_sub)
  show "unat (a + b - n) = unat a + unat b - unat n"
    by (simp add: e sum)
  have "unat n < unat a + unat b"
    using nlt noov by simp
  then show "0 < unat (a + b - n)" "unat (a + b - n) < unat b"
    using A by (simp_all add: e sum)
qed

lemma opt_no_excess:
  fixes a b n :: "32 word"
  assumes "\<not> n < a + b" and "unat a + unat b < 4294967296"
  shows "unat a + unat b \<le> unat n"
proof -
  from assms(2) have "unat (a + b) = unat a + unat b"
    by (simp add: unat_add32)
  with assms(1) show ?thesis
    by (simp add: word_less_nat_alt)
qed

lemma PA_STATE_OPT_HasWork_iff:
  "PA_STATE_OPT_HasWork s = (numPrimsComplete s < numPrims s)"
  by (auto simp: PA_STATE_OPT_HasWork_def)

text \<open>
  Example: a draw of 3 primitives in its first batch; the state function has staged
  the next state with a primitive increment of 8 (\<^verbatim>\<open>SetNextState\<close>).
\<close>

definition example_opt :: PA_STATE_OPT where
  "example_opt =
     SetNextState 1 1 0 8 True
       \<lparr> streamSizeInVerts = 48, binTopology = TOP_TRIANGLE_LIST,
         numPrims = 3, numPrimsComplete = 0, numSimdPrims = 0,
         cur = 0, prev = 0, first = 0, counter = 0, reset = False,
         primIDIncr = 8, primID = [0, 1, 2, 3, 4, 5, 6, 7],
         pfnPaFunc = 0, pfnPaSingleFunc = 0, pfnPaFuncReset = 0, pfnPaNextFunc = 0,
         nextNumSimdPrims = 0, nextNumPrimsIncrement = 0, nextReset = False,
         isStreaming = False \<rparr>"

lemmas opt_defs = example_opt_def SetNextState_def PA_STATE_OPT_NextPrim_def
  PA_STATE_OPT_HasWork_def PA_STATE_OPT_NumPrims_def KNOB_SIMD_WIDTH_def Let_def

text \<open>
  Claim C4 as stated fails in the state after the last batch is retired: for the draw
  of 3 primitives \<^verbatim>\<open>NumPrims\<close> is 3 during the batch, and after \<^verbatim>\<open>NextPrim\<close> (no work
  is left, 8 primitives count as complete) the unsigned subtraction 8 - (16 - 3) wraps
  around to 4294967291, far above the batch width.
\<close>

theorem PA_STATE_OPT_NumPrims_after_last_batch:
  "PA_STATE_OPT_HasWork example_opt \<and>
   PA_STATE_OPT_NumPrims example_opt = 3 \<and>
   \<not> PA_STATE_OPT_HasWork (snd (PA_STATE_OPT_NextPrim example_opt)) \<and>
   PA_STATE_OPT_NumPrims (snd (PA_STATE_OPT_NextPrim example_opt)) = 4294967291 \<and>
   \<not> PA_STATE_OPT_NumPrims (snd (PA_STATE_OPT_NextPrim example_opt)) \<le> 8"
  by (simp add: opt_defs)

text \<open>
  Claim C4, amended. \<^verbatim>\<open>NumPrims\<close> of the optimized assembler returns 8 when
  \<^verbatim>\<open>numPrimsComplete + nextNumPrimsIncrement <= numPrims\<close> and otherwise
  \<^verbatim>\<open>8 - (numPrimsComplete + nextNumPrimsIncrement - numPrims)\<close>, in unsigned 32-bit
  arithmetic. While the draw has work (\<^verbatim>\<open>numPrimsComplete < numPrims\<close>) and the staged
  increment is at most 8, the value is at least 1 and at most 8; when the staged
  increment is 8 (and \<^verbatim>\<open>numPrimsComplete + 8\<close> does not overflow) it is the minimum of 8
  and \<^verbatim>\<open>numPrims - numPrimsComplete\<close>, the number of valid lanes of the batch.
\<close>

theorem PA_STATE_OPT_NumPrims_valid_lanes:
  "PA_STATE_OPT_NumPrims s =
     (if numPrimsComplete s + nextNumPrimsIncrement s \<le> numPrims s then 8
      else 8 - (numPrimsComplete s + nextNumPrimsIncrement s - numPrims s)) \<and>
   (PA_STATE_OPT_HasWork s \<and> nextNumPrimsIncrement s \<le> 8 \<longrightarrow>
      0 < PA_STATE_OPT_NumPrims s \<and> PA_STATE_OPT_NumPrims s \<le> 8) \<and>
   (PA_STATE_OPT_HasWork s \<and> nextNumPrimsIncrement s = 8 \<and>
    unat (numPrimsComplete s) + 8 < 2 ^ 32 \<longrightarrow>
      unat (PA_STATE_OPT_NumPrims s) = min 8 (unat (numPrims s) - unat (numPrimsComplete s)))"
proof -
  let ?a = "numPrimsComplete s" and ?b = "nextNumPrimsIncrement s" and ?n = "numPrims s"
  have def: "PA_STATE_OPT_NumPrims s = (if ?n < ?a + ?b then 8 - (?a + ?b - ?n) else 8)"
    by (simp add: PA_STATE_OPT_NumPrims_def KNOB_SIMD_WIDTH_def)
  have one: "PA_STATE_OPT_NumPrims s = (if ?a + ?b \<le> ?n then 8 else 8 - (?a + ?b - ?n))"
  proof (cases "?n < ?a + ?b")
    case True
    then have "\<not> ?a + ?b \<le> ?n" by (simp only: not_le)
    with True show ?thesis by (simp only: def if_True if_False)
  next
    case False
    then have "?a + ?b \<le> ?n" by (simp only: not_less)
    with False show ?thesis by (simp only: def if_True if_False)
  qed
  have sub: "unat (8 - (?a + ?b - ?n)) = 8 - unat (?a + ?b - ?n)"
    if "?a < ?n" "?b \<le> 8" "?n < ?a + ?b"
  proof -
    have "unat (?a + ?b - ?n) < unat ?b" using that by (rule opt_excess(3))
    moreover have "unat ?b \<le> 8" using that(2) by (simp add: word_le_nat_alt)
    ultimately have "?a + ?b - ?n \<le> 8" by (simp add: word_le_nat_alt)
    then show ?thesis by (simp add: unat_sub)
  qed
  have two: "PA_STATE_OPT_HasWork s \<and> ?b \<le> 8 \<longrightarrow>
      0 < PA_STATE_OPT_NumPrims s \<and> PA_STATE_OPT_NumPrims s \<le> 8"
  proof
    assume h: "PA_STATE_OPT_HasWork s \<and> ?b \<le> 8"
    then have a: "?a < ?n" and b: "?b \<le> 8" by (simp_all add: PA_STATE_OPT_HasWork_iff)
    show "0 < PA_STATE_OPT_NumPrims s \<and> PA_STATE_OPT_NumPrims s \<le> 8"
    proof (cases "?n < ?a + ?b")
      case False
      then show ?thesis by (simp add: def)
    next
      case True
      have "unat (?a + ?b - ?n) < unat ?b" "unat ?b \<le> 8"
        using opt_excess(3) [OF a b True] b by (simp_all add: word_le_nat_alt)
      then have "0 < unat (8 - (?a + ?b - ?n))" "unat (8 - (?a + ?b - ?n)) \<le> 8"
        using sub [OF a b True] by simp_all
      then show ?thesis using True
        by (simp add: def word_less_nat_alt word_le_nat_alt)
    qed
  qed
  have three: "PA_STATE_OPT_HasWork s \<and> ?b = 8 \<and> unat ?a + 8 < 2 ^ 32 \<longrightarrow>
      unat (PA_STATE_OPT_NumPrims s) = min 8 (unat ?n - unat ?a)"
  proof
    assume h: "PA_STATE_OPT_HasWork s \<and> ?b = 8 \<and> unat ?a + 8 < 2 ^ 32"
    then have a: "?a < ?n" and b: "?b \<le> 8" and b8: "unat ?b = 8"
      and nov: "unat ?a + unat ?b < 4294967296"
      by (simp_all add: PA_STATE_OPT_HasWork_iff)
    have A: "unat ?a < unat ?n" using a by (simp add: word_less_nat_alt)
    show "unat (PA_STATE_OPT_NumPrims s) = min 8 (unat ?n - unat ?a)"
    proof (cases "?n < ?a + ?b")
      case False
      from opt_no_excess [OF False nov] b8 show ?thesis
        using False by (simp add: def)
    next
      case True
      from opt_excess(1,2) [OF a b True] sub [OF a b True] b8 A show ?thesis
        using True by (simp add: def)
    qed
  qed
  show ?thesis by (intro conjI one two three)
qed


theorem PA_STATE_OPT_NumPrims_valid_lanes_witness:
  "PA_STATE_OPT_HasWork example_opt \<and> nextNumPrimsIncrement example_opt = 8 \<and>
   0 < PA_STATE_OPT_NumPrims example_opt \<and> PA_STATE_OPT_NumPrims example_opt \<le> 8 \<and>
   unat (PA_STATE_OPT_NumPrims example_opt) = 3"
proof -
  have h: "PA_STATE_OPT_HasWork example_opt" "nextNumPrimsIncrement example_opt = 8"
    "unat (numPrimsComplete example_opt) = 0" "unat (numPrims example_opt) = 3"
    by (simp_all add: example_opt_def SetNextState_def PA_STATE_OPT_HasWork_def)
  note t = PA_STATE_OPT_NumPrims_valid_lanes [of example_opt]
  from t [THEN conjunct2, THEN conjunct1] h
  have "0 < PA_STATE_OPT_NumPrims example_opt \<and> PA_STATE_OPT_NumPrims example_opt \<le> 8"
    by simp
  moreover from t [THEN conjunct2, THEN conjunct2] h
  have "unat (PA_STATE_OPT_NumPrims example_opt) = 3"
    by simp
  ultimately show ?thesis using h by blast
qed


section \<open>The result of \<^verbatim>\<open>NextPrim\<close> (claim C8)\<close>

text \<open>
  Whether a batch can be assembled from the vertices already fed: \<^verbatim>\<open>Assemble\<close>, called
  without a feed before it, returns true with at least one primitive.
\<close>

definition more_assemblable :: "nat \<Rightarrow> PA_STATE_CUT \<Rightarrow> bool" where
  "more_assemblable szv s =
     (case Assemble_state szv s of Inl e \<Rightarrow> False | Inr (ok, s') \<Rightarrow> ok \<and> 0 < NumPrims s')"

text \<open>
  Example: a triangle strip of 16 vertices without cuts, on the ring of 48. The state
  is the one in the second iteration of the draw loop after \<^verbatim>\<open>Assemble\<close> returned
  true: both batches are fed, 10 vertices are taken and 8 primitives assembled.
\<close>

definition strip16_state :: PA_STATE_CUT where
  "strip16_state = projr
     (bindE (PA_STATE_CUT_init 48 (\<lambda>_. 0) 16 1 TOP_TRIANGLE_STRIP False False (\<lambda>_. 0) (\<lambda>_ _. 0) 0)
       (\<lambda>s. bindE (draw_step (\<lambda>_. 0) 128 0 s)
          (\<lambda>(ps, s). bindE (feed_batch (\<lambda>_. 0) 1 s)
             (\<lambda>s. bindE (Assemble_state 128 s) (\<lambda>(ok, s). Inr s)))))"

lemma PA_TESS_NextPrim_fst: "fst (PA_TESS_NextPrim t) = (8 < m_numPrims t)"
proof -
  have "fst (PA_TESS_NextPrim t) = (m_numPrims (snd (PA_TESS_NextPrim t)) \<noteq> 0)"
    by (simp add: PA_TESS_NextPrim_def Let_def PA_TESS_HasWork_def)
  also have "\<dots> = (unat (m_numPrims (snd (PA_TESS_NextPrim t))) \<noteq> 0)"
    by (simp add: unat_eq_0)
  also have "\<dots> = (8 < unat (m_numPrims t))"
    by (simp only: PA_TESS_NextPrim_numPrims) auto
  also have "\<dots> = (8 < m_numPrims t)"
    by (simp add: word_less_nat_alt)
  finally show ?thesis .
qed

text \<open>
  Claim C8 as stated fails for the cut-aware assembler. In the example \<^verbatim>\<open>NextPrim\<close>
  returns false although the 6 vertices fed and not yet taken make up the final batch
  of the draw: \<^verbatim>\<open>Assemble\<close>, called next without a feed, returns true with the 6
  primitives.
\<close>

theorem NextPrim_false_with_batch_ready:
  "NumPrims strip16_state = 8 \<and>
   headVertex strip16_state = 16 \<and> curVertex strip16_state = 10 \<and>
   numRemainingVerts strip16_state = 6 \<and>
   fst (NextPrim strip16_state) = False \<and>
   more_assemblable 128 (snd (NextPrim strip16_state)) \<and>
   map_sum id (\<lambda>(ok, s'). (ok, batch_prims s')) (Assemble_state 128 (snd (NextPrim strip16_state))) =
     Inr (True, [[8, 9, 10], [9, 11, 10], [10, 11, 12], [11, 13, 12], [12, 13, 14], [13, 15, 14]])"
  by (simp add: strip16_state_def more_assemblable_def init_defs pa_defs asm_defs draw_defs)

text \<open>
  Claim C8, amended. \<^verbatim>\<open>NextPrim\<close> of the cut-aware assembler returns false in every
  state. \<^verbatim>\<open>NextPrim\<close> of the tessellation assembler returns true exactly when
  primitives remain after the batch is retired, that is when more than 8 remained
  before. \<^verbatim>\<open>NextPrim\<close> of the optimized assembler returns true exactly when the staged
  \<^verbatim>\<open>nextNumSimdPrims\<close> is positive and the draw has work left after the staged
  increment is added to \<^verbatim>\<open>numPrimsComplete\<close>.
\<close>

theorem NextPrim_results:
  "fst (NextPrim s) = False \<and>
   fst (PA_TESS_NextPrim t) = (8 < m_numPrims t) \<and>
   fst (PA_TESS_NextPrim t) = PA_TESS_HasWork (snd (PA_TESS_NextPrim t)) \<and>
   fst (PA_STATE_OPT_NextPrim u) =
     (0 < nextNumSimdPrims u \<and> numPrimsComplete u + nextNumPrimsIncrement u < numPrims u)"
proof -
  have a: "fst (NextPrim s) = False"
    by (simp add: NextPrim_def)
  have b: "fst (PA_TESS_NextPrim t) = (8 < m_numPrims t)"
    by (rule PA_TESS_NextPrim_fst)
  have c: "fst (PA_TESS_NextPrim t) = PA_TESS_HasWork (snd (PA_TESS_NextPrim t))"
    by (simp add: PA_TESS_NextPrim_def Let_def)
  have d: "fst (PA_STATE_OPT_NextPrim u) =
     (0 < nextNumSimdPrims u \<and> numPrimsComplete u + nextNumPrimsIncrement u < numPrims u)"
    by (auto simp: PA_STATE_OPT_NextPrim_def Let_def PA_STATE_OPT_HasWork_iff split: if_splits)
  show ?thesis by (intro conjI a b c d)
qed

theorem NextPrim_results_witness:
  "fst (NextPrim strip16_state) = False \<and>
   fst (PA_TESS_NextPrim example_tess) = True \<and>
   fst (PA_STATE_OPT_NextPrim example_opt) = False"
proof -
  note t = NextPrim_results [of strip16_state example_tess example_opt]
  have "m_numPrims example_tess = 19"
    by (simp add: example_tess_def PA_TESS_init_def)
  moreover have "nextNumSimdPrims example_opt = 0"
    by (simp add: example_opt_def SetNextState_def)
  ultimately show ?thesis using t by simp
qed

section \<open>\<^verbatim>\<open>Reset\<close> (claim C9)\<close>

text \<open>
  \<open>same_feed\<close>: the fields \<^verbatim>\<open>ProcessVerts\<close> leaves alone, among them the cursors of
  the feed and the configuration of the draw.
\<close>

definition same_feed :: "PA_STATE_CUT \<Rightarrow> PA_STATE_CUT \<Rightarrow> bool" where
  "same_feed s s' =
     (streamSizeInVerts s' = streamSizeInVerts s \<and> binTopology s' = binTopology s \<and>
      pCutIndices s' = pCutIndices s \<and> numVerts s' = numVerts s \<and>
      numAttribs s' = numAttribs s \<and>
      numVertsToAssemble s' = numVertsToAssemble s \<and> vOffsets s' = vOffsets s \<and>
      headVertex s' = headVertex s \<and> tailVertex s' = tailVertex s \<and>
      vPrimId s' = vPrimId s \<and>
      needOffsets s' = needOffsets s \<and> vertsPerPrim s' = vertsPerPrim s \<and>
      processCutVerts s' = processCutVerts s \<and> pfnPa s' = pfnPa s \<and>
      uninit s' = uninit s)"

lemma same_feed_refl [simp]: "same_feed s s"
  by (simp add: same_feed_def)

lemma same_feed_trans: "same_feed a b \<Longrightarrow> same_feed b c \<Longrightarrow> same_feed a c"
  by (simp add: same_feed_def)

lemma same_frame_feed: "same_frame s s' \<Longrightarrow> same_feed s s'"
  by (simp add: same_frame_def same_feed_def)

lemma ProcessVerts_body_same_feed:
  assumes "ProcessVerts_body s = Inr s'"
  shows "same_feed s s'"
  using assms unfolding ProcessVerts_body_def
  by (auto simp: bindE_eq_Inr same_frame_def same_feed_def RestartTopology_def
        split: if_splits dest!: call_pfnPa_frame)

lemma ProcessVerts_loop_same_feed:
  "ProcessVerts_loop s = Inr s' \<Longrightarrow> same_feed s s'"
proof (induction s rule: ProcessVerts_loop.induct)
  case (1 s)
  show ?case
  proof (cases "ProcessVerts_cond s")
    case True
    with "1.prems"(1) obtain t where t: "ProcessVerts_body s = Inr t" "ProcessVerts_loop t = Inr s'"
      by (subst (asm) ProcessVerts_loop.simps) (auto split: sum.splits)
    from "1.IH" [OF True t(1) t(2)] ProcessVerts_body_same_feed [OF t(1)]
    show ?thesis by (rule same_feed_trans [rotated])
  next
    case False
    with "1.prems" show ?thesis
      by (subst (asm) ProcessVerts_loop.simps) simp
  qed
qed

lemma ProcessVerts_same_feed:
  assumes "ProcessVerts s = Inr s'"
  shows "same_feed s s'"
proof -
  from assms obtain t where t: "ProcessVerts_loop s = Inr t"
    and fin: "(if finish_cond t then call_pfnPa (pfnPa t) (curVertex t) True t else Inr t) = Inr s'"
    by (auto simp: ProcessVerts_def bindE_eq_Inr finish_cond_def)
  have "same_feed t s'"
    using fin by (auto split: if_splits dest!: call_pfnPa_frame same_frame_feed)
  with ProcessVerts_loop_same_feed [OF t] show ?thesis
    by (rule same_feed_trans)
qed

lemma Assemble_state_numVertsToAssemble:
  assumes "Assemble_state szv s = Inr (ok, s')"
  shows "numVertsToAssemble s' = numVertsToAssemble s"
proof -
  have *: "numVertsToAssemble u = numVertsToAssemble t" if "ComputeOffsets szv t = Inr u" for t u
  proof -
    from ComputeOffsets_vOffsets [OF that]
    have "numVertsToAssemble u = numVertsToAssemble (t\<lparr>vOffsets := vOffsets u\<rparr>)"
      by simp
    then show ?thesis by simp
  qed
  from assms show ?thesis
    by (auto simp: Assemble_state_def bindE_eq_Inr same_feed_def
          split: if_splits dest!: ProcessVerts_same_feed *)
qed

lemma reaches_numVertsToAssemble:
  "reaches s0 s \<Longrightarrow> numVertsToAssemble s = numVertsToAssemble s0"
proof (induction rule: reaches.induct)
  case (reaches_refl s0)
  show ?case by simp
next
  case (reaches_output s0 s k s')
  then show ?case
    by (auto simp: GetNextVsOutput_def split: if_splits)
next
  case (reaches_mask s0 s m)
  then show ?case by (simp add: store_cut_mask_def)
next
  case (reaches_stream s0 s)
  then show ?case by (simp add: GetNextStreamOutput_def Let_def)
next
  case (reaches_assemble s0 s szv ok s')
  then show ?case using Assemble_state_numVertsToAssemble by simp
next
  case (reaches_next s0 s)
  then show ?case by (simp add: NextPrim_def Advance_def)
next
  case (reaches_reset s0 s)
  then show ?case by (simp add: Reset_def)
qed

lemma s32_u32 [simp]: "s32 (u32 n) = s32 n"
  by (simp add: s32_def u32_def)

lemma reaches_feed: "reaches s0 s \<Longrightarrow> feed m s = Inr s' \<Longrightarrow> reaches s0 s'"
  by (auto simp: feed_def bindE_eq_Inr intro: reaches_output reaches_mask)

text \<open>
  Claim C9 as stated fails. The constructor of the cut-aware assembler clears the flag
  \<^verbatim>\<open>needOffsets\<close>; \<^verbatim>\<open>Reset\<close> does not write it, so after a batch was fed it stays set.
  \<^verbatim>\<open>PA_TESS::Reset\<close> is an assertion that fails.
\<close>

theorem Reset_keeps_dirty_flag:
  "needOffsets (projr (PA_STATE_CUT_init 48 (\<lambda>_. 0) 3 1 TOP_TRIANGLE_LIST False False
       (\<lambda>_. 0) (\<lambda>_ _. 0) 0)) = False \<and>
   needOffsets (Reset (projr example_tri_list)) = True \<and>
   PA_TESS_Reset example_tess = Inl AssertFailure"
  by (simp add: example_tri_list_def init_defs pa_defs Reset_def PA_TESS_Reset_def)

text \<open>
  Claim C9, amended. In every state \<open>s\<close> a cut-aware assembler constructed as \<open>s0\<close>
  reaches, \<^verbatim>\<open>Reset\<close> gives \<^verbatim>\<open>numRemainingVerts\<close>, \<^verbatim>\<open>numPrimsAssembled\<close>,
  \<^verbatim>\<open>curIndex\<close>, \<^verbatim>\<open>curVertex\<close>, \<^verbatim>\<open>tailVertex\<close>, \<^verbatim>\<open>headVertex\<close>,
  \<^verbatim>\<open>reverseWinding\<close>, \<^verbatim>\<open>adjExtraVert\<close> and \<^verbatim>\<open>vPrimId\<close> the values they had after
  construction and leaves every other field (the flag \<^verbatim>\<open>needOffsets\<close>, the gather
  table, the cached offsets, the vertex window) as it is. \<^verbatim>\<open>Reset\<close> of the optimized
  assembler sets \<^verbatim>\<open>pfnPaFunc\<close> to \<^verbatim>\<open>pfnPaFuncReset\<close>, zeroes \<^verbatim>\<open>numPrimsComplete\<close>,
  \<^verbatim>\<open>numSimdPrims\<close>, \<^verbatim>\<open>cur\<close>, \<^verbatim>\<open>prev\<close>, \<^verbatim>\<open>first\<close> and \<^verbatim>\<open>counter\<close>, clears
  \<^verbatim>\<open>reset\<close> and leaves the rest (it is idempotent). \<^verbatim>\<open>Reset\<close> of the tessellation
  assembler is not implemented: it fails its assertion.
\<close>

theorem Reset_restores_cursors:
  "(PA_STATE_CUT_init n cuts nv na topo pcv gs v0 o0 u0 = Inr s0 \<and> reaches s0 s \<longrightarrow>
      Reset s = s\<lparr>numRemainingVerts := numRemainingVerts s0,
                  numPrimsAssembled := numPrimsAssembled s0,
                  curIndex := curIndex s0,
                  curVertex := curVertex s0,
                  tailVertex := tailVertex s0,
                  headVertex := headVertex s0,
                  reverseWinding := reverseWinding s0,
                  adjExtraVert := adjExtraVert s0,
                  vPrimId := vPrimId s0\<rparr>) \<and>
   PA_STATE_OPT_Reset u =
     u\<lparr>pfnPaFunc := pfnPaFuncReset u, numPrimsComplete := 0, numSimdPrims := 0,
       cur := 0, prev := 0, first := 0, counter := 0, reset := False\<rparr> \<and>
   PA_STATE_OPT_Reset (PA_STATE_OPT_Reset u) = PA_STATE_OPT_Reset u \<and>
   PA_TESS_Reset t = Inl AssertFailure"
proof -
  have a: "PA_STATE_CUT_init n cuts nv na topo pcv gs v0 o0 u0 = Inr s0 \<and> reaches s0 s \<longrightarrow>
      Reset s = s\<lparr>numRemainingVerts := numRemainingVerts s0,
                  numPrimsAssembled := numPrimsAssembled s0,
                  curIndex := curIndex s0,
                  curVertex := curVertex s0,
                  tailVertex := tailVertex s0,
                  headVertex := headVertex s0,
                  reverseWinding := reverseWinding s0,
                  adjExtraVert := adjExtraVert s0,
                  vPrimId := vPrimId s0\<rparr>"
  proof
    assume h: "PA_STATE_CUT_init n cuts nv na topo pcv gs v0 o0 u0 = Inr s0 \<and> reaches s0 s"
    then have "numVertsToAssemble s = numVertsToAssemble s0"
      by (simp add: reaches_numVertsToAssemble)
    moreover from h have "numVertsToAssemble s0 = u32 nv" "numRemainingVerts s0 = s32 nv"
      "numPrimsAssembled s0 = 0" "curIndex s0 = 0" "curVertex s0 = 0" "tailVertex s0 = 0"
      "headVertex s0 = 0" "\<not> reverseWinding s0" "adjExtraVert s0 = -1"
      "vPrimId s0 = [0, 1, 2, 3, 4, 5, 6, 7]"
      by (auto simp: PA_STATE_CUT_init_def bindE_eq_Inr)
    ultimately show "Reset s = s\<lparr>numRemainingVerts := numRemainingVerts s0,
                  numPrimsAssembled := numPrimsAssembled s0,
                  curIndex := curIndex s0,
                  curVertex := curVertex s0,
                  tailVertex := tailVertex s0,
                  headVertex := headVertex s0,
                  reverseWinding := reverseWinding s0,
                  adjExtraVert := adjExtraVert s0,
                  vPrimId := vPrimId s0\<rparr>"
      by (simp add: Reset_def)
  qed
  have b: "PA_STATE_OPT_Reset u =
     u\<lparr>pfnPaFunc := pfnPaFuncReset u, numPrimsComplete := 0, numSimdPrims := 0,
       cur := 0, prev := 0, first := 0, counter := 0, reset := False\<rparr>"
    by (simp add: PA_STATE_OPT_Reset_def)
  have c: "PA_STATE_OPT_Reset (PA_STATE_OPT_Reset u) = PA_STATE_OPT_Reset u"
    by (simp add: PA_STATE_OPT_Reset_def)
  have d: "PA_TESS_Reset t = Inl AssertFailure"
    by (simp add: PA_TESS_Reset_def)
  show ?thesis by (intro conjI a b c d)
qed


theorem Reset_restores_cursors_witness:
  "\<exists>s0 s. PA_STATE_CUT_init 48 (\<lambda>_. 0) 3 1 TOP_TRIANGLE_LIST False False
              (\<lambda>_. 0) (\<lambda>_ _. 0) 0 = Inr s0 \<and>
     example_tri_list = Inr s \<and> reaches s0 s \<and>
     headVertex s = 8 \<and> needOffsets s \<and>
     headVertex (Reset s) = 0 \<and> numRemainingVerts (Reset s) = 3 \<and> needOffsets (Reset s)"
proof -
  define s0 where "s0 = projr (PA_STATE_CUT_init 48 (\<lambda>_. 0) 3 1 TOP_TRIANGLE_LIST False False
              (\<lambda>_. 0) (\<lambda>_ _. 0) (0::nat))"
  define s where "s = projr example_tri_list"
  have e0: "PA_STATE_CUT_init 48 (\<lambda>_. 0) 3 1 TOP_TRIANGLE_LIST False False
              (\<lambda>_. 0) (\<lambda>_ _. 0) 0 = Inr s0"
    unfolding s0_def by (simp add: init_defs)
  have e: "example_tri_list = Inr s"
    unfolding s_def by (simp add: example_tri_list_def init_defs pa_defs)
  from e e0 have "feed 0 s0 = Inr s"
    by (simp add: example_tri_list_def)
  then have r: "reaches s0 s"
    by (rule reaches_feed [OF reaches_refl])
  have f: "headVertex s = 8" "needOffsets s" "headVertex s0 = 0" "numRemainingVerts s0 = 3"
    unfolding s_def s0_def by (simp_all add: example_tri_list_def init_defs pa_defs)
  from Reset_restores_cursors [THEN conjunct1, rule_format, OF conjI [OF e0 r]]
  have "headVertex (Reset s) = headVertex s0" "numRemainingVerts (Reset s) = numRemainingVerts s0"
    "needOffsets (Reset s) = needOffsets s"
    by simp_all
  with e0 e r f show ?thesis by auto
qed


section \<open>Draws without cuts (claim C1)\<close>

text \<open>
  What a draw without cuts is expected to hand on, for the topology functions of
  triangle lists and triangle strips: \<open>tri_count h m\<close> primitives after \<open>m\<close> vertices,
  the \<open>k\<close>-th with the gather indices \<open>tri_prim h N k\<close> on a vertex ring of size \<open>N\<close>
  (vertex \<open>i\<close> of the draw lies in slot \<open>i mod N\<close>). A triangle list groups the vertices
  by three; a triangle strip makes a triangle of every three consecutive vertices and
  swaps the last two vertices of every second one.
\<close>

fun tri_count :: "PFN_PA_FUNC \<Rightarrow> nat \<Rightarrow> nat" where
  "tri_count PfnTriStrip m = m - 2"
| "tri_count h m = m div 3"

fun tri_prim :: "PFN_PA_FUNC \<Rightarrow> nat \<Rightarrow> nat \<Rightarrow> nat list" where
  "tri_prim PfnTriStrip N k =
     (if even k then [k mod N, (k + 1) mod N, (k + 2) mod N]
      else [k mod N, (k + 2) mod N, (k + 1) mod N])"
| "tri_prim h N k = [3 * k mod N, (3 * k + 1) mod N, (3 * k + 2) mod N]"

definition expected_prims :: "PFN_PA_FUNC \<Rightarrow> nat \<Rightarrow> nat \<Rightarrow> nat list list" where
  "expected_prims h N m = map (tri_prim h N) [0..<tri_count h m]"

fun pending :: "PFN_PA_FUNC \<Rightarrow> nat \<Rightarrow> nat" where
  "pending PfnTriStrip m = min m 2"
| "pending h m = m mod 3"

definition topo_ok :: "PFN_PA_FUNC \<Rightarrow> nat \<Rightarrow> nat \<Rightarrow> PA_STATE_CUT \<Rightarrow> bool" where
  "topo_ok h N m s =
     (curIndex s = pending h m \<and>
      (1 \<le> pending h m \<longrightarrow> vert s (pending h m - 1) = (m - 1) mod N) \<and>
      (2 \<le> pending h m \<longrightarrow> vert s (pending h m - 2) = (m - 2) mod N) \<and>
      (h = PfnTriStrip \<longrightarrow> reverseWinding s = (2 \<le> m \<and> odd m)))"

text \<open>The primitive vertex number \<open>m\<close> completes, if any.\<close>

fun new_prims :: "PFN_PA_FUNC \<Rightarrow> nat \<Rightarrow> nat \<Rightarrow> nat list list" where
  "new_prims PfnTriStrip N m =
     (if 2 \<le> m then
        [if odd m then [(m - 2) mod N, m mod N, (m - 1) mod N]
         else [(m - 2) mod N, (m - 1) mod N, m mod N]]
      else [])"
| "new_prims h N m =
     (if m mod 3 = 2 then [[(m - 2) mod N, (m - 1) mod N, m mod N]] else [])"

lemma expected_prims_Suc_list:
  "expected_prims PfnTriList N (Suc m) = expected_prims PfnTriList N m @ new_prims PfnTriList N m"
proof (cases "m mod 3 = 2")
  case True
  then have d: "Suc m div 3 = Suc (m div 3)" "3 * (m div 3) = m - 2" "Suc (m - 2) = m - 1"
    "Suc (m - 1) = m" by arith+
  show ?thesis
    using True by (simp add: expected_prims_def d)
next
  case False
  then have "Suc m div 3 = m div 3" by arith
  with False show ?thesis
    by (simp add: expected_prims_def)
qed

lemma expected_prims_Suc_strip:
  "expected_prims PfnTriStrip N (Suc m) = expected_prims PfnTriStrip N m @ new_prims PfnTriStrip N m"
proof (cases "2 \<le> m")
  case True
  then obtain k where m: "m = 2 + k"
    using le_Suc_ex by blast
  show ?thesis
    by (simp add: expected_prims_def m)
next
  case False
  then have "Suc m - 2 = 0" "m - 2 = 0" by arith+
  with False show ?thesis
    by (simp add: expected_prims_def)
qed

lemma batch_prims_emit:
  assumes "vertsPerPrim s = 3"
    and "indices s' = (indices s)(0 := (indices s 0)(numPrimsAssembled s := x),
                                  1 := (indices s 1)(numPrimsAssembled s := y),
                                  2 := (indices s 2)(numPrimsAssembled s := z))"
    and "numPrimsAssembled s' = Suc (numPrimsAssembled s)" and "vertsPerPrim s' = 3"
  shows "batch_prims s' = batch_prims s @ [[x, y, z]]"
  using assms
  by (auto simp: batch_prims_def prim_indices_def NumPrims_def upt_small cong: map_cong)

lemma batch_prims_same:
  assumes "indices s' = indices s" and "numPrimsAssembled s' = numPrimsAssembled s"
    and "vertsPerPrim s' = vertsPerPrim s"
  shows "batch_prims s' = batch_prims s"
  using assms by (simp add: batch_prims_def prim_indices_def NumPrims_def)

lemma TriList_step:
  assumes "topo_ok PfnTriList N m s" and "numPrimsAssembled s < 8" and "vertsPerPrim s = 3"
  shows "\<exists>s'. ProcessVertTriList (m mod N) False s = Inr s' \<and> same_frame s s' \<and>
     adjExtraVert s' = adjExtraVert s \<and> topo_ok PfnTriList N (Suc m) s' \<and>
     numPrimsAssembled s' \<le> Suc (numPrimsAssembled s) \<and>
     batch_prims s' = batch_prims s @ new_prims PfnTriList N m"
proof -
  consider "m mod 3 = 0" | "m mod 3 = 1" | "m mod 3 = 2" by arith
  then show ?thesis
  proof cases
    case 1
    then have d: "Suc m mod 3 = 1" by arith
    let ?s' = "s\<lparr>vert := (vert s)(0 := m mod N), curIndex := 1\<rparr>"
    have "ProcessVertTriList (m mod N) False s = Inr ?s'"
      using assms 1 by (simp add: ProcessVertTriList_def topo_ok_def MAX_NUM_VERTS_PER_PRIM_def Let_def)
    moreover have "topo_ok PfnTriList N (Suc m) ?s'"
      by (simp add: topo_ok_def d)
    moreover have "batch_prims ?s' = batch_prims s"
      by (rule batch_prims_same) simp_all
    ultimately show ?thesis
      using 1 by (simp add: same_frame_def)
  next
    case 2
    then have d: "Suc m mod 3 = 2" "0 < m" by arith+
    let ?s' = "s\<lparr>vert := (vert s)(1 := m mod N), curIndex := 2\<rparr>"
    have "ProcessVertTriList (m mod N) False s = Inr ?s'"
      using assms 2 by (simp add: ProcessVertTriList_def topo_ok_def MAX_NUM_VERTS_PER_PRIM_def Let_def)
    moreover have "topo_ok PfnTriList N (Suc m) ?s'"
      using assms(1) 2 d by (auto simp: topo_ok_def)
    moreover have "batch_prims ?s' = batch_prims s"
      by (rule batch_prims_same) simp_all
    ultimately show ?thesis
      using 2 by (simp add: same_frame_def)
  next
    case 3
    then have d: "Suc m mod 3 = 0" by arith
    from assms(1) 3 have v: "curIndex s = 2" "vert s 0 = (m - 2) mod N" "vert s 1 = (m - 1) mod N"
      by (auto simp: topo_ok_def)
    define s' where "s' = s\<lparr>vert := (vert s)(2 := m mod N),
        indices := (indices s)(0 := (indices s 0)(numPrimsAssembled s := (m - 2) mod N),
                               1 := (indices s 1)(numPrimsAssembled s := (m - 1) mod N),
                               2 := (indices s 2)(numPrimsAssembled s := m mod N)),
        numPrimsAssembled := Suc (numPrimsAssembled s), curIndex := 0\<rparr>"
    have "ProcessVertTriList (m mod N) False s = Inr s'"
      using assms(2) v
      by (simp add: ProcessVertTriList_def MAX_NUM_VERTS_PER_PRIM_def KNOB_SIMD_WIDTH_def Let_def
            put_index_def s'_def)
    moreover have "topo_ok PfnTriList N (Suc m) s'"
      by (simp add: topo_ok_def d s'_def)
    moreover have "batch_prims s' = batch_prims s @ [[(m - 2) mod N, (m - 1) mod N, m mod N]]"
      by (rule batch_prims_emit) (simp_all add: s'_def assms(3))
    moreover have "same_frame s s'" "adjExtraVert s' = adjExtraVert s"
      "numPrimsAssembled s' \<le> Suc (numPrimsAssembled s)"
      by (simp_all add: same_frame_def s'_def)
    ultimately show ?thesis
      using 3 by simp
  qed
qed

lemma TriStrip_step:
  assumes "topo_ok PfnTriStrip N m s" and "numPrimsAssembled s < 8" and "vertsPerPrim s = 3"
  shows "\<exists>s'. ProcessVertTriStrip (m mod N) False s = Inr s' \<and> same_frame s s' \<and>
     adjExtraVert s' = adjExtraVert s \<and> topo_ok PfnTriStrip N (Suc m) s' \<and>
     numPrimsAssembled s' \<le> Suc (numPrimsAssembled s) \<and>
     batch_prims s' = batch_prims s @ new_prims PfnTriStrip N m"
proof -
  consider "m = 0" | "m = 1" | "2 \<le> m" by arith
  then show ?thesis
  proof cases
    case 1
    let ?s' = "s\<lparr>vert := (vert s)(0 := m mod N), curIndex := 1\<rparr>"
    have "ProcessVertTriStrip (m mod N) False s = Inr ?s'"
      using assms 1 by (simp add: ProcessVertTriStrip_def topo_ok_def MAX_NUM_VERTS_PER_PRIM_def Let_def)
    moreover have "topo_ok PfnTriStrip N (Suc m) ?s'"
      using assms(1) 1 by (simp add: topo_ok_def)
    moreover have "batch_prims ?s' = batch_prims s"
      by (rule batch_prims_same) simp_all
    ultimately show ?thesis
      using 1 by (simp add: same_frame_def)
  next
    case 2
    let ?s' = "s\<lparr>vert := (vert s)(1 := m mod N), curIndex := 2\<rparr>"
    have "ProcessVertTriStrip (m mod N) False s = Inr ?s'"
      using assms 2 by (simp add: ProcessVertTriStrip_def topo_ok_def MAX_NUM_VERTS_PER_PRIM_def Let_def)
    moreover have "topo_ok PfnTriStrip N (Suc m) ?s'"
      using assms(1) 2 by (simp add: topo_ok_def)
    moreover have "batch_prims ?s' = batch_prims s"
      by (rule batch_prims_same) simp_all
    ultimately show ?thesis
      using 2 by (simp add: same_frame_def)
  next
    case 3
    from assms(1) 3 have v: "curIndex s = 2" "vert s 0 = (m - 2) mod N" "vert s 1 = (m - 1) mod N"
      "reverseWinding s = odd m"
      by (auto simp: topo_ok_def)
    define x where "x = (if odd m then m mod N else (m - 1) mod N)"
    define y where "y = (if odd m then (m - 1) mod N else m mod N)"
    define s' where "s' = s\<lparr>vert := (vert s)(2 := m mod N, 0 := (m - 1) mod N, 1 := m mod N),
        indices := (indices s)(0 := (indices s 0)(numPrimsAssembled s := (m - 2) mod N),
                               1 := (indices s 1)(numPrimsAssembled s := x),
                               2 := (indices s 2)(numPrimsAssembled s := y)),
        numPrimsAssembled := Suc (numPrimsAssembled s), curIndex := 2,
        reverseWinding := \<not> odd m\<rparr>"
    have "ProcessVertTriStrip (m mod N) False s = Inr s'"
      using assms(2) v
      by (simp add: ProcessVertTriStrip_def MAX_NUM_VERTS_PER_PRIM_def KNOB_SIMD_WIDTH_def Let_def
            put_index_def s'_def x_def y_def)
    moreover have "topo_ok PfnTriStrip N (Suc m) s'"
      using 3 by (simp add: topo_ok_def s'_def)
    moreover have "batch_prims s' = batch_prims s @ [[(m - 2) mod N, x, y]]"
      by (rule batch_prims_emit) (simp_all add: s'_def assms(3))
    moreover have "same_frame s s'" "adjExtraVert s' = adjExtraVert s"
      "numPrimsAssembled s' \<le> Suc (numPrimsAssembled s)"
      by (simp_all add: same_frame_def s'_def)
    ultimately show ?thesis
      using 3 by (simp add: x_def y_def)
  qed
qed

text \<open>
  The invariant of a draw without cuts: \<open>m\<close> vertices are taken, \<open>g\<close> more are fed,
  the topology state is the one after \<open>m\<close> vertices, and the primitives handed on
  (\<open>acc\<close>) with those of the current batch are the expected ones.
\<close>

definition cut_free_inv ::
  "PFN_PA_FUNC \<Rightarrow> nat \<Rightarrow> nat \<Rightarrow> nat list list \<Rightarrow> nat \<Rightarrow> nat \<Rightarrow> PA_STATE_CUT \<Rightarrow> bool" where
  "cut_free_inv h N n acc m g s =
     (numVerts s = N \<and> pfnPa s = h \<and> pCutIndices s = (\<lambda>_. 0) \<and>
      vertsPerPrim s = 3 \<and> adjExtraVert s = -1 \<and> numVertsToAssemble s = n \<and>
      m \<le> n \<and> numRemainingVerts s = int n - int m \<and>
      curVertex s = m mod N \<and> headVertex s = (m + g) mod N \<and> g < N \<and>
      numPrimsAssembled s \<le> 8 \<and> topo_ok h N m s \<and>
      acc @ batch_prims s = expected_prims h N m)"

lemma call_step:
  assumes "h = PfnTriList \<or> h = PfnTriStrip"
    and "topo_ok h N m s" and "numPrimsAssembled s < 8" and "vertsPerPrim s = 3"
  shows "\<exists>s'. call_pfnPa h (m mod N) False s = Inr s' \<and> same_frame s s' \<and>
     adjExtraVert s' = adjExtraVert s \<and> topo_ok h N (Suc m) s' \<and>
     numPrimsAssembled s' \<le> Suc (numPrimsAssembled s) \<and>
     batch_prims s' = batch_prims s @ new_prims h N m"
proof -
  from assms(1) show ?thesis
  proof
    assume "h = PfnTriList"
    with TriList_step [of N m s] assms(2,3,4) show ?thesis by simp
  next
    assume "h = PfnTriStrip"
    with TriStrip_step [of N m s] assms(2,3,4) show ?thesis by simp
  qed
qed

lemma expected_prims_Suc:
  "h = PfnTriList \<or> h = PfnTriStrip \<Longrightarrow>
   expected_prims h N (Suc m) = expected_prims h N m @ new_prims h N m"
  by (erule disjE) (simp_all add: expected_prims_Suc_list expected_prims_Suc_strip)

lemma topo_ok_cursor [simp]:
  "topo_ok h N m (s\<lparr>curVertex := c, numRemainingVerts := r\<rparr>) = topo_ok h N m s"
  by (simp add: topo_ok_def)

lemma batch_prims_cursor [simp]:
  "batch_prims (s\<lparr>curVertex := c, numRemainingVerts := r\<rparr>) = batch_prims s"
  by (simp add: batch_prims_def prim_indices_def NumPrims_def)

lemma gap_zero: "g < N \<Longrightarrow> (m + g) mod N = m mod N \<Longrightarrow> g = (0::nat)"
proof -
  assume g: "g < N" and e: "(m + g) mod N = m mod N"
  have "N dvd (m + g) - m"
    using e by (subst mod_eq_dvd_iff_nat [symmetric]) simp_all
  then have "N dvd g" by simp
  with g show ?thesis
    by (cases "g = 0") (auto dest: nat_dvd_not_less [rotated])
qed


lemma body_cut_free:
  assumes inv: "cut_free_inv h N n acc m g s" and c: "ProcessVerts_cond s"
    and h: "h = PfnTriList \<or> h = PfnTriStrip" and N: "N < 2 ^ 32"
  shows "\<exists>t. ProcessVerts_body s = Inr t \<and> cut_free_inv h N n acc (Suc m) (g - 1) t \<and>
     0 < g \<and> numPrimsAssembled t \<le> Suc (numPrimsAssembled s) \<and> same_feed s t"
proof -
  from inv have f: "numVerts s = N" "pfnPa s = h"
    "pCutIndices s = (\<lambda>_. 0)" "vertsPerPrim s = 3" "adjExtraVert s = -1"
    "numVertsToAssemble s = n" "m \<le> n" "numRemainingVerts s = int n - int m"
    "curVertex s = m mod N" "headVertex s = (m + g) mod N" "g < N"
    "numPrimsAssembled s \<le> 8" "topo_ok h N m s" "acc @ batch_prims s = expected_prims h N m"
    by (simp_all add: cut_free_inv_def)
  from c f have a8: "numPrimsAssembled s < 8" and mn: "m < n"
    and ne: "m mod N \<noteq> (m + g) mod N"
    by (auto simp: ProcessVerts_cond_def KNOB_SIMD_WIDTH_def)
  from ne have g0: "0 < g" by (cases g) auto
  from f(11) have N0: "0 < N" by simp
  from call_step [OF h f(13) a8 f(4)] obtain s' where s':
    "call_pfnPa h (m mod N) False s = Inr s'" "same_frame s s'"
    "adjExtraVert s' = adjExtraVert s" "topo_ok h N (Suc m) s'"
    "numPrimsAssembled s' \<le> Suc (numPrimsAssembled s)"
    "batch_prims s' = batch_prims s @ new_prims h N m"
    by blast
  define t where "t = s'\<lparr>curVertex := u32 (curVertex s' + 1) mod numVerts s',
                       numRemainingVerts := numRemainingVerts s' - 1\<rparr>"
  have nocut: "\<not> IsCutIndex s (curVertex s)"
    by (simp add: IsCutIndex_def f(3))
  have body: "ProcessVerts_body s = Inr t"
    using nocut N0 s'(1) by (simp add: ProcessVerts_body_def f t_def)
  have fr: "numVerts s' = N" "pfnPa s' = h"
    "pCutIndices s' = (\<lambda>_. 0)" "vertsPerPrim s' = 3" "numVertsToAssemble s' = n"
    "numRemainingVerts s' = int n - int m" "curVertex s' = m mod N"
    "headVertex s' = (m + g) mod N"
    using s'(2) f by (simp_all add: same_frame_def)
  have "m mod N + 1 \<le> N" using N0 by (simp add: Suc_leI)
  then have "u32 (m mod N + 1) = m mod N + 1"
    using N by (simp add: u32_def)
  then have cur: "u32 (curVertex s' + 1) mod numVerts s' = Suc m mod N"
    by (simp add: fr mod_Suc_eq)
  have head: "(m + g) mod N = (Suc m + (g - 1)) mod N"
    using g0 by simp
  have ex: "acc @ batch_prims s' = expected_prims h N (Suc m)"
    using f(14) s'(6) expected_prims_Suc [OF h, of N m] by simp
  have "cut_free_inv h N n acc (Suc m) (g - 1) t"
    unfolding cut_free_inv_def
  proof (intro conjI)
    show "numVerts t = N" "pfnPa t = h" "pCutIndices t = (\<lambda>_. 0)"
      "vertsPerPrim t = 3" "numVertsToAssemble t = n"
      by (simp_all add: t_def fr)
    show "adjExtraVert t = -1"
      by (simp add: t_def s'(3) f(5))
    show "Suc m \<le> n" using mn by simp
    show "numRemainingVerts t = int n - int (Suc m)"
      by (simp add: t_def fr)
    show "curVertex t = Suc m mod N"
      using cur by (simp add: t_def)
    show "headVertex t = (Suc m + (g - 1)) mod N"
      using head by (simp add: t_def fr)
    show "g - 1 < N" using f(11) by simp
    show "numPrimsAssembled t \<le> 8"
      using s'(5) a8 by (simp add: t_def)
    show "topo_ok h N (Suc m) t"
      using s'(4) by (simp add: t_def)
    show "acc @ batch_prims t = expected_prims h N (Suc m)"
      using ex by (simp add: t_def)
  qed
  moreover have "same_feed s t"
    using s'(2) by (simp add: same_feed_def same_frame_def t_def)
  moreover have "numPrimsAssembled t \<le> Suc (numPrimsAssembled s)"
    using s'(5) by (simp add: t_def)
  ultimately show ?thesis using body g0 by blast
qed

lemma loop_cut_free:
  assumes "cut_free_inv h N n acc m g s"
    and h: "h = PfnTriList \<or> h = PfnTriStrip" and N: "N < 2 ^ 32"
  shows "\<exists>s' k. ProcessVerts_loop s = Inr s' \<and> k \<le> g \<and>
     cut_free_inv h N n acc (m + k) (g - k) s' \<and>
     numPrimsAssembled s' \<le> numPrimsAssembled s + k \<and> \<not> ProcessVerts_cond s' \<and>
     (ProcessVerts_cond s \<longrightarrow> 0 < k) \<and> same_feed s s'"
  using assms(1)
proof (induction s arbitrary: m g rule: ProcessVerts_loop.induct)
  case (1 s)
  show ?case
  proof (cases "ProcessVerts_cond s")
    case False
    then have "ProcessVerts_loop s = Inr s"
      by (rule ProcessVerts_loop_stable)
    moreover have "cut_free_inv h N n acc (m + 0) (g - 0) s"
      using "1.prems" by simp
    ultimately have "ProcessVerts_loop s = Inr s \<and> 0 \<le> g \<and>
       cut_free_inv h N n acc (m + 0) (g - 0) s \<and>
       numPrimsAssembled s \<le> numPrimsAssembled s + 0 \<and> \<not> ProcessVerts_cond s \<and>
       (ProcessVerts_cond s \<longrightarrow> 0 < (0::nat)) \<and> same_feed s s"
      using False by simp
    then show ?thesis by blast
  next
    case True
    from body_cut_free [OF "1.prems" True h N] obtain t where t:
      "ProcessVerts_body s = Inr t" "cut_free_inv h N n acc (Suc m) (g - 1) t"
      "0 < g" "numPrimsAssembled t \<le> Suc (numPrimsAssembled s)" "same_feed s t"
      by blast
    from "1.IH" [OF True t(1) t(2)] obtain s' k where k:
      "ProcessVerts_loop t = Inr s'" "k \<le> g - 1"
      "cut_free_inv h N n acc (Suc m + k) (g - 1 - k) s'"
      "numPrimsAssembled s' \<le> numPrimsAssembled t + k" "\<not> ProcessVerts_cond s'"
      "same_feed t s'"
      by blast
    have "ProcessVerts_loop s = Inr s'"
      using True t(1) k(1) by (subst ProcessVerts_loop.simps) simp
    moreover have "Suc k \<le> g" using k(2) t(3) by simp
    moreover have "cut_free_inv h N n acc (m + Suc k) (g - Suc k) s'"
      using k(3) by simp
    moreover have "numPrimsAssembled s' \<le> numPrimsAssembled s + Suc k"
      using k(4) t(4) by simp
    moreover have "same_feed s s'"
      using t(5) k(6) by (rule same_feed_trans)
    ultimately have "ProcessVerts_loop s = Inr s' \<and> Suc k \<le> g \<and>
       cut_free_inv h N n acc (m + Suc k) (g - Suc k) s' \<and>
       numPrimsAssembled s' \<le> numPrimsAssembled s + Suc k \<and> \<not> ProcessVerts_cond s' \<and>
       (ProcessVerts_cond s \<longrightarrow> 0 < Suc k) \<and> same_feed s s'"
      using k(5) by simp
    then show ?thesis by blast
  qed
qed


lemma cut_free_inv_fields:
  assumes "cut_free_inv h N n acc m g s"
  shows "numVerts s = N" "pfnPa s = h" "pCutIndices s = (\<lambda>_. 0)"
    "vertsPerPrim s = 3" "adjExtraVert s = -1" "numVertsToAssemble s = n" "m \<le> n"
    "numRemainingVerts s = int n - int m" "curVertex s = m mod N"
    "headVertex s = (m + g) mod N" "g < N" "numPrimsAssembled s \<le> 8"
    "topo_ok h N m s" "acc @ batch_prims s = expected_prims h N m"
  using assms by (simp_all add: cut_free_inv_def)

lemma feed_batch_cut_free:
  assumes inv: "cut_free_inv h N n acc m g s" and g: "g + 8 < N" and N: "N + 8 \<le> 2 ^ 32"
  shows "\<exists>s1. feed_batch (\<lambda>_. 0) j s = Inr s1 \<and> cut_free_inv h N n acc m (g + 8) s1 \<and>
    needOffsets s1 \<and> numPrimsAssembled s1 = numPrimsAssembled s"
proof -
  note f = cut_free_inv_fields [OF inv]
  define s1 where "s1 = s\<lparr>headVertex := u32 (headVertex s + KNOB_SIMD_WIDTH) mod numVerts s,
                  needOffsets := True\<rparr>"
  have N0: "numVerts s \<noteq> 0" using f(1,11) by simp
  have "(\<lambda>_. 0 :: 8 word)(GetNextVsIndices s := 0) = (\<lambda>_. 0)"
    by (rule fun_upd_idem) simp
  then have "s\<lparr>pCutIndices := (\<lambda>_. 0)(GetNextVsIndices s := 0)\<rparr> = s\<lparr>pCutIndices := pCutIndices s\<rparr>"
    by (simp add: f(3))
  then have st: "store_cut_mask 0 s = s"
    by (simp add: store_cut_mask_def f(3))
  have "GetNextVsOutput s = Inr (headVertex s div KNOB_SIMD_WIDTH, s1)"
    using N0 by (simp add: GetNextVsOutput_def s1_def)
  then have fb: "feed_batch (\<lambda>_. 0) j s = Inr s1"
    by (simp add: feed_batch_def feed_def st)
  have "(m + g) mod N < N" using f(11) by simp
  then have "(m + g) mod N + 8 < 2 ^ 32" using N by simp
  then have "u32 ((m + g) mod N + 8) = (m + g) mod N + 8"
    by (simp add: u32_def)
  then have head: "headVertex s1 = (m + (g + 8)) mod N"
    by (simp add: s1_def f(1,10) KNOB_SIMD_WIDTH_def mod_add_left_eq add.assoc)
  have bp: "batch_prims s1 = batch_prims s"
    by (rule batch_prims_same) (simp_all add: s1_def)
  have tk: "topo_ok h N m s1 = topo_ok h N m s"
    by (simp add: topo_ok_def s1_def)
  have "cut_free_inv h N n acc m (g + 8) s1"
    unfolding cut_free_inv_def
  proof (intro conjI)
    show "numVerts s1 = N" "pfnPa s1 = h" "pCutIndices s1 = (\<lambda>_. 0)"
      "vertsPerPrim s1 = 3" "adjExtraVert s1 = -1" "numVertsToAssemble s1 = n"
      "numRemainingVerts s1 = int n - int m" "curVertex s1 = m mod N"
      "numPrimsAssembled s1 \<le> 8"
      using f by (simp_all add: s1_def)
    show "m \<le> n" by (rule f(7))
    show "headVertex s1 = (m + (g + 8)) mod N" by (rule head)
    show "g + 8 < N" by (rule g)
    show "topo_ok h N m s1" using f(13) tk by simp
    show "acc @ batch_prims s1 = expected_prims h N m" using f(14) bp by simp
  qed
  moreover have "needOffsets s1" "numPrimsAssembled s1 = numPrimsAssembled s"
    by (simp_all add: s1_def)
  ultimately show ?thesis using fb by blast
qed

lemma ProcessVerts_cut_free:
  assumes inv: "cut_free_inv h N n acc m g s"
    and h: "h = PfnTriList \<or> h = PfnTriStrip" and N: "N < 2 ^ 32"
  shows "\<exists>s' k. ProcessVerts s = Inr s' \<and> k \<le> g \<and>
     cut_free_inv h N n acc (m + k) (g - k) s' \<and>
     numPrimsAssembled s' \<le> numPrimsAssembled s + k \<and> \<not> ProcessVerts_cond s' \<and>
     (ProcessVerts_cond s \<longrightarrow> 0 < k) \<and> same_feed s s'"
proof -
  from loop_cut_free [OF inv h N] obtain s' k where l:
    "ProcessVerts_loop s = Inr s'" "k \<le> g" "cut_free_inv h N n acc (m + k) (g - k) s'"
    "numPrimsAssembled s' \<le> numPrimsAssembled s + k" "\<not> ProcessVerts_cond s'"
    "ProcessVerts_cond s \<longrightarrow> 0 < k" "same_feed s s'"
    by blast
  have "adjExtraVert s' = -1"
    by (rule cut_free_inv_fields(5) [OF l(3)])
  then have "ProcessVerts s = Inr s'"
    by (simp add: ProcessVerts_def l(1))
  with l show ?thesis by blast
qed

lemma cut_free_inv_retire:
  assumes inv: "cut_free_inv h N n acc m g s" and g: "g' = g"
  shows "cut_free_inv h N n (acc @ batch_prims s) m g'
           (Advance (s\<lparr>vOffsets := x, needOffsets := b\<rparr>))"
proof -
  note f = cut_free_inv_fields [OF inv]
  let ?t = "Advance (s\<lparr>vOffsets := x, needOffsets := b\<rparr>)"
  have bp: "batch_prims ?t = []"
    by (simp add: batch_prims_def NumPrims_def Advance_def)
  have tk: "topo_ok h N m ?t = topo_ok h N m s"
    by (simp add: topo_ok_def Advance_def)
  show ?thesis
    unfolding cut_free_inv_def
  proof (intro conjI)
    show "numVerts ?t = N" "pfnPa ?t = h" "pCutIndices ?t = (\<lambda>_. 0)"
      "vertsPerPrim ?t = 3" "adjExtraVert ?t = -1" "numVertsToAssemble ?t = n"
      "numRemainingVerts ?t = int n - int m" "curVertex ?t = m mod N"
      "numPrimsAssembled ?t \<le> 8" "headVertex ?t = (m + g') mod N"
      using f g by (simp_all add: Advance_def)
    show "m \<le> n" by (rule f(7))
    show "g' < N" using f(11) g by simp
    show "topo_ok h N m ?t" using f(13) tk by simp
    show "(acc @ batch_prims s) @ batch_prims ?t = expected_prims h N m"
      using f(14) bp by simp
  qed
qed

lemma draw_step_cut_free:
  assumes inv: "cut_free_inv h N n acc m g s" and mn: "m < n"
    and ga: "g + numPrimsAssembled s \<le> 7"
    and h: "h = PfnTriList \<or> h = PfnTriStrip" and N16: "16 \<le> N" and N32: "N + 8 \<le> 2 ^ 32"
  shows "\<exists>ps s' m' g'. draw_step (\<lambda>_. 0) szv j s = Inr (ps, s') \<and>
     cut_free_inv h N n (acc @ ps) m' g' s' \<and> m < m' \<and>
     (m' < n \<longrightarrow> g' + numPrimsAssembled s' \<le> 7) \<and>
     (m' = n \<longrightarrow> numPrimsAssembled s' = 0)"
proof -
  have g8: "g + 8 < N" using ga N16 by simp
  have N: "N < 2 ^ 32" using N32 by simp
  from feed_batch_cut_free [OF inv g8 N32] obtain s1 where s1:
    "feed_batch (\<lambda>_. 0) j s = Inr s1" "cut_free_inv h N n acc m (g + 8) s1"
    "needOffsets s1" "numPrimsAssembled s1 = numPrimsAssembled s"
    by blast
  note f1 = cut_free_inv_fields [OF s1(2)]
  have "(m + (g + 8)) mod N \<noteq> m mod N"
    using gap_zero [OF g8, of m] by auto
  then have c1: "ProcessVerts_cond s1"
    using f1(8,9,10) mn ga s1(4) by (simp add: ProcessVerts_cond_def KNOB_SIMD_WIDTH_def)
  from ProcessVerts_cut_free [OF s1(2) h N] c1 obtain s2 k where s2:
    "ProcessVerts s1 = Inr s2" "k \<le> g + 8" "cut_free_inv h N n acc (m + k) (g + 8 - k) s2"
    "numPrimsAssembled s2 \<le> numPrimsAssembled s1 + k" "\<not> ProcessVerts_cond s2"
    "0 < k" "same_feed s1 s2"
    by blast
  note f2 = cut_free_inv_fields [OF s2(3)]
  have no2: "needOffsets s2" using s2(7) s1(3) by (simp add: same_feed_def)
  show ?thesis
  proof (cases "numPrimsAssembled s2 \<noteq> 8 \<and> numRemainingVerts s2 > 0")
    case True
    then have a: "Assemble_state szv s1 = Inr (False, s2)"
      by (simp add: Assemble_state_def s2(1) KNOB_SIMD_WIDTH_def)
    have np: "snd (NextPrim s2) = s2"
      using True by (simp add: NextPrim_def KNOB_SIMD_WIDTH_def)
    have ds: "draw_step (\<lambda>_. 0) szv j s = Inr ([], s2)"
      by (simp add: draw_step_def s1(1) a np)
    have "curVertex s2 = headVertex s2"
      using s2(5) True by (simp add: ProcessVerts_cond_def KNOB_SIMD_WIDTH_def)
    then have "(m + k + (g + 8 - k)) mod N = (m + k) mod N"
      using f2(9,10) by simp
    then have g0: "g + 8 - k = 0"
      by (rule gap_zero [OF f2(11)])
    have a7: "numPrimsAssembled s2 \<le> 7" using True f2(12) by simp
    have mk: "m + k < n" using True f2(8) by simp
    have "cut_free_inv h N n (acc @ []) (m + k) (g + 8 - k) s2" using s2(3) by simp
    moreover have "m < m + k" using s2(6) by simp
    moreover have "m + k < n \<longrightarrow> (g + 8 - k) + numPrimsAssembled s2 \<le> 7"
      using g0 a7 by simp
    moreover have "m + k = n \<longrightarrow> numPrimsAssembled s2 = 0"
      using mk by simp
    ultimately show ?thesis using ds by blast
  next
    case False
    have "vertsPerPrim s2 \<le> MAX_NUM_VERTS_PER_PRIM"
      by (simp add: f2(4) MAX_NUM_VERTS_PER_PRIM_def)
    then obtain s3 where s3: "ComputeOffsets szv s2 = Inr s3"
      by (simp add: ComputeOffsets_def)
    have s3': "s3 = s2\<lparr>vOffsets := vOffsets s3\<rparr>"
      by (rule ComputeOffsets_vOffsets [OF s3])
    define s4 where "s4 = s2\<lparr>vOffsets := vOffsets s3, needOffsets := False\<rparr>"
    have s4: "s3\<lparr>needOffsets := False\<rparr> = s4"
      by (subst s3') (simp add: s4_def)
    have a: "Assemble_state szv s1 = Inr (True, s4)"
      using False no2 by (simp add: Assemble_state_def s2(1) KNOB_SIMD_WIDTH_def s3 s4)
    have "numPrimsAssembled s4 = 8 \<or> numRemainingVerts s4 \<le> 0"
      using False by (auto simp: s4_def)
    then have np: "snd (NextPrim s4) = Advance s4"
      by (simp add: NextPrim_def KNOB_SIMD_WIDTH_def)
    have bp: "batch_prims s4 = batch_prims s2"
      by (rule batch_prims_same) (simp_all add: s4_def)
    have ds: "draw_step (\<lambda>_. 0) szv j s = Inr (batch_prims s2, Advance s4)"
      by (simp add: draw_step_def s1(1) a np bp)
    have i: "cut_free_inv h N n (acc @ batch_prims s2) (m + k) (g + 8 - k) (Advance s4)"
      unfolding s4_def by (rule cut_free_inv_retire [OF s2(3) refl])
    have z: "numPrimsAssembled (Advance s4) = 0"
      by (simp add: Advance_def)
    have "m + k < n \<longrightarrow> (g + 8 - k) + numPrimsAssembled (Advance s4) \<le> 7"
    proof
      assume "m + k < n"
      then have "numRemainingVerts s2 > 0" using f2(8) by simp
      then have "numPrimsAssembled s2 = 8" using False by simp
      then have "8 \<le> numPrimsAssembled s + k" using s2(4) s1(4) by simp
      then show "(g + 8 - k) + numPrimsAssembled (Advance s4) \<le> 7"
        using ga z by simp
    qed
    moreover have "m < m + k" using s2(6) by simp
    moreover have "m + k = n \<longrightarrow> numPrimsAssembled (Advance s4) = 0"
      using z by simp
    ultimately show ?thesis using ds i by blast
  qed
qed

lemma draw_loop_cut_free:
  assumes "cut_free_inv h N n acc m g s"
    and "m < n \<longrightarrow> g + numPrimsAssembled s \<le> 7"
    and "m = n \<longrightarrow> numPrimsAssembled s = 0"
    and "n - m < fuel"
    and h: "h = PfnTriList \<or> h = PfnTriStrip" and N16: "16 \<le> N" and N32: "N + 8 \<le> 2 ^ 32"
  shows "draw_loop fuel (\<lambda>_. 0) szv j s acc = Some (Inr (expected_prims h N n))"
  using assms(1-4)
proof (induction fuel arbitrary: s acc m g j)
  case 0
  then show ?case by simp
next
  case (Suc fuel)
  note f = cut_free_inv_fields [OF Suc.prems(1)]
  show ?case
  proof (cases "m = n")
    case True
    have nw: "\<not> HasWork s"
      using f(5,8) True by (simp add: HasWork_def)
    have "numPrimsAssembled s = 0" using Suc.prems(3) True by simp
    then have "batch_prims s = []"
      by (simp add: batch_prims_def NumPrims_def)
    then have "acc = expected_prims h N n" using f(14) True by simp
    then show ?thesis using nw by simp
  next
    case False
    then have mn: "m < n" using f(7) by simp
    then have ga: "g + numPrimsAssembled s \<le> 7" using Suc.prems(2) by simp
    have w: "HasWork s"
      using f(8) mn by (simp add: HasWork_def)
    from draw_step_cut_free [OF Suc.prems(1) mn ga h N16 N32, of szv j]
    obtain ps s' m' g' where st:
      "draw_step (\<lambda>_. 0) szv j s = Inr (ps, s')" "cut_free_inv h N n (acc @ ps) m' g' s'"
      "m < m'" "m' < n \<longrightarrow> g' + numPrimsAssembled s' \<le> 7"
      "m' = n \<longrightarrow> numPrimsAssembled s' = 0"
      by blast
    have "n - m' < fuel" using st(3) Suc.prems(4) mn by simp
    from Suc.IH [OF st(2) st(4) st(5) this]
    have "draw_loop fuel (\<lambda>_. 0) szv (j + 1) s' (acc @ ps) = Some (Inr (expected_prims h N n))" .
    then show ?thesis using w st(1) by simp
  qed
qed

lemma s32_small: "n < 2 ^ 31 \<Longrightarrow> s32 n = int n"
  by (simp add: s32_def u32_def)

lemma u32_small: "n < 2 ^ 32 \<Longrightarrow> u32 n = n"
  by (simp add: u32_def)

lemma init_cut_free:
  assumes topo: "pfnPa_of topo gs = Inr h" "NumVertsPerPrim topo gs = 3"
    and n: "n < 2 ^ 31" and N: "0 < N"
  shows "\<exists>s0. PA_STATE_CUT_init N (\<lambda>_. 0) n na topo pc gs v0 o0 u0 = Inr s0 \<and>
     cut_free_inv h N n [] 0 0 s0 \<and> numPrimsAssembled s0 = 0"
proof -
  have n32: "n < 2 ^ 32" using n by simp
  have p: "pending h 0 = 0" "tri_count h 0 = 0"
    by (cases h; simp)+
  show ?thesis
    by (simp add: PA_STATE_CUT_init_def topo s32_small [OF n] u32_small [OF n32]
        cut_free_inv_def topo_ok_def batch_prims_def NumPrims_def expected_prims_def N p)
qed

lemma draw_loop_unfold:
  "0 < fuel \<Longrightarrow> draw_loop fuel cuts szv j s acc =
     (if HasWork s then
        (case draw_step cuts szv j s of
           Inl e \<Rightarrow> Some (Inl e)
         | Inr (ps, s') \<Rightarrow> draw_loop (fuel - 1) cuts szv (j + 1) s' (acc @ ps))
      else Some (Inr acc))"
  by (cases fuel) (simp_all split: sum.split prod.split)

lemma expected_prims_list:
  "expected_prims PfnTriList N n =
     map (\<lambda>k. [3 * k mod N, (3 * k + 1) mod N, (3 * k + 2) mod N]) [0..<n div 3]"
proof -
  have "tri_prim PfnTriList N = (\<lambda>k. [3 * k mod N, (3 * k + 1) mod N, (3 * k + 2) mod N])"
    by (rule ext) simp
  then show ?thesis by (simp add: expected_prims_def)
qed

lemma expected_prims_strip:
  "expected_prims PfnTriStrip N n =
     map (\<lambda>k. if even k then [k mod N, (k + 1) mod N, (k + 2) mod N]
               else [k mod N, (k + 2) mod N, (k + 1) mod N]) [0..<n - 2]"
proof -
  have "tri_prim PfnTriStrip N = (\<lambda>k. if even k then [k mod N, (k + 1) mod N, (k + 2) mod N]
               else [k mod N, (k + 2) mod N, (k + 1) mod N])"
    by (rule ext) simp
  then show ?thesis by (simp add: expected_prims_def)
qed

lemma cut_free_draw:
  assumes topo: "pfnPa_of topo gs = Inr h" "NumVertsPerPrim topo gs = 3"
    and h: "h = PfnTriList \<or> h = PfnTriStrip"
    and N16: "16 \<le> N" and N32: "N + 8 \<le> 2 ^ 32" and n: "n < 2 ^ 31" and fuel: "n < fuel"
  shows "\<exists>s0. PA_STATE_CUT_init N (\<lambda>_. 0) n na topo pc gs v0 o0 u0 = Inr s0 \<and>
     draw_loop fuel (\<lambda>_. 0) szv 0 s0 [] = Some (Inr (expected_prims h N n))"
proof -
  have N: "0 < N" using N16 by simp
  from init_cut_free [OF topo n N, of na pc v0 o0 u0] obtain s0 where s0:
    "PA_STATE_CUT_init N (\<lambda>_. 0) n na topo pc gs v0 o0 u0 = Inr s0"
    "cut_free_inv h N n [] 0 0 s0" "numPrimsAssembled s0 = 0"
    by blast
  have a: "0 < n \<longrightarrow> 0 + numPrimsAssembled s0 \<le> 7" using s0(3) by simp
  have b: "0 = n \<longrightarrow> numPrimsAssembled s0 = 0" using s0(3) by simp
  have c: "n - 0 < fuel" using fuel by simp
  have "draw_loop fuel (\<lambda>_. 0) szv 0 s0 [] = Some (Inr (expected_prims h N n))"
    by (rule draw_loop_cut_free [OF s0(2) a b c h N16 N32])
  with s0(1) show ?thesis by blast
qed

text \<open>
  Claim C1 as stated fails for the triangle strip. A draw of 6 = 3 * 2 vertices without
  restart bits, on the ring of 48 vertices, hands on 4 primitives and not 2, and the
  triples in the gather table are 0 1 2, then 1 3 2 (the reversed one, the second and
  third vertex exchanged), then 2 3 4 and 3 5 4: the first is not reversed, and the
  sequence is not 0 2 1, 2 1 3.
\<close>

theorem strip_of_six_vertices:
  "map_sum id (\<lambda>s. draw_loop 7 (\<lambda>_. 0) 128 0 s [])
     (PA_STATE_CUT_init 48 (\<lambda>_. 0) 6 1 TOP_TRIANGLE_STRIP False False (\<lambda>_. 0) (\<lambda>_ _. 0) 0) =
   Inr (Some (Inr [[0, 1, 2], [1, 3, 2], [2, 3, 4], [3, 5, 4]]))"
  by (simp add: draw_loop_unfold init_defs pa_defs asm_defs draw_defs)

text \<open>
  Claim C1, amended. The cut-aware assembler on a ring of \<open>N\<close> vertices, \<open>N\<close> at least
  16 (two batches) and \<open>N + 8\<close> at most \<open>2^32\<close>, driven by the draw loop over a draw of
  \<open>n\<close> vertices (\<open>n\<close> below \<open>2^31\<close>) with no restart bit set, whatever
  \<^verbatim>\<open>processCutVerts\<close> is. The loop ends, without an error, and the primitives handed on
  are, in order, given as the slots of the ring the gather table names:
  for \<^verbatim>\<open>TOP_TRIANGLE_LIST\<close> the \<open>n div 3\<close> triples \<open>3k, 3k+1, 3k+2\<close> (modulo \<open>N\<close>),
  which are \<open>K\<close> primitives for \<open>n = 3 * K\<close>; for \<^verbatim>\<open>TOP_TRIANGLE_STRIP\<close> the \<open>n - 2\<close>
  triples \<open>k, k+1, k+2\<close> for even \<open>k\<close> and \<open>k, k+2, k+1\<close> for odd \<open>k\<close> (modulo \<open>N\<close>),
  which are \<open>3 * K - 2\<close> primitives for \<open>n = 3 * K\<close>.
\<close>

theorem cut_free_triangles:
  assumes "16 \<le> N" and "N + 8 \<le> 2 ^ 32" and "n < 2 ^ 31" and "n < fuel"
  shows "(\<exists>s0. PA_STATE_CUT_init N (\<lambda>_. 0) n na TOP_TRIANGLE_LIST pc gs v0 o0 u0 = Inr s0 \<and>
            draw_loop fuel (\<lambda>_. 0) szv 0 s0 [] =
              Some (Inr (map (\<lambda>k. [3 * k mod N, (3 * k + 1) mod N, (3 * k + 2) mod N])
                           [0..<n div 3]))) \<and>
         (\<exists>s0. PA_STATE_CUT_init N (\<lambda>_. 0) n na TOP_TRIANGLE_STRIP pc gs v0 o0 u0 = Inr s0 \<and>
            draw_loop fuel (\<lambda>_. 0) szv 0 s0 [] =
              Some (Inr (map (\<lambda>k. if even k then [k mod N, (k + 1) mod N, (k + 2) mod N]
                                  else [k mod N, (k + 2) mod N, (k + 1) mod N])
                           [0..<n - 2])))"
proof -
  have l: "pfnPa_of TOP_TRIANGLE_LIST gs = Inr PfnTriList" "NumVertsPerPrim TOP_TRIANGLE_LIST gs = 3"
    by (simp_all add: pfnPa_of_def)
  have s: "pfnPa_of TOP_TRIANGLE_STRIP gs = Inr PfnTriStrip"
    "NumVertsPerPrim TOP_TRIANGLE_STRIP gs = 3"
    by (simp_all add: pfnPa_of_def)
  have hl: "PfnTriList = PfnTriList \<or> PfnTriList = PfnTriStrip" by simp
  have hs: "PfnTriStrip = PfnTriList \<or> PfnTriStrip = PfnTriStrip" by simp
  note a = cut_free_draw [OF l hl assms, of na pc v0 o0 u0 szv]
  note b = cut_free_draw [OF s hs assms, of na pc v0 o0 u0 szv]
  show ?thesis
    by (rule conjI [OF a [unfolded expected_prims_list] b [unfolded expected_prims_strip]])
qed

theorem cut_free_triangles_witness:
  "(16::nat) \<le> 48 \<and> (48::nat) + 8 \<le> 2 ^ 32 \<and> (6::nat) < 2 ^ 31 \<and> (6::nat) < 7 \<and>
   (\<exists>s0. PA_STATE_CUT_init 48 (\<lambda>_. 0) 6 1 TOP_TRIANGLE_LIST False False (\<lambda>_. 0) (\<lambda>_ _. 0) 0 = Inr s0 \<and>
      draw_loop 7 (\<lambda>_. 0) 128 0 s0 [] = Some (Inr [[0, 1, 2], [3, 4, 5]])) \<and>
   (\<exists>s0. PA_STATE_CUT_init 48 (\<lambda>_. 0) 6 1 TOP_TRIANGLE_STRIP False False (\<lambda>_. 0) (\<lambda>_ _. 0) 0 = Inr s0 \<and>
      draw_loop 7 (\<lambda>_. 0) 128 0 s0 [] =
        Some (Inr [[0, 1, 2], [1, 3, 2], [2, 3, 4], [3, 5, 4]]))"
  using cut_free_triangles [of 48 6 7 1 False False "\<lambda>_. 0" "\<lambda>_ _. 0" 0 128]
  by (simp add: upt_small numeral_2_eq_2 [symmetric])

section \<open>Restart markers (claim C2)\<close>

text \<open>
  \<open>since_cut S s\<close>: the vertices the topology state of a strip holds, \<^verbatim>\<open>vert[0]\<close> to
  \<^verbatim>\<open>vert[curIndex - 1]\<close>, are among \<open>S\<close>. With \<open>S\<close> the vertices taken since the last
  cut it is the invariant of the loop of \<^verbatim>\<open>ProcessVerts\<close> that keeps a primitive from
  spanning a cut.
\<close>

definition since_cut :: "nat set \<Rightarrow> PA_STATE_CUT \<Rightarrow> bool" where
  "since_cut S s =
     (curIndex s \<le> 2 \<and> (0 < curIndex s \<longrightarrow> vert s 0 \<in> S) \<and> (1 < curIndex s \<longrightarrow> vert s 1 \<in> S))"

text \<open>
  Example: a triangle strip of the 7 vertices 0 to 6 with vertex 3 marked cut (mask 8
  of the first batch), on the ring of 48 vertices, after the vertices 0, 1 and 2 are
  taken: one primitive is assembled and the strip continues with reversed winding.
\<close>

definition strip_cut_state :: PA_STATE_CUT where
  "strip_cut_state = projr
     (bindE (bindE (bindE (bindE
        (PA_STATE_CUT_init 48 (\<lambda>_. 0) 7 1 TOP_TRIANGLE_STRIP False False (\<lambda>_. 0) (\<lambda>_ _. 0) 0)
        (feed 8)) ProcessVerts_body) ProcessVerts_body) ProcessVerts_body)"

lemma cut_vertex_step:
  assumes "numVerts s \<noteq> 0" and "IsCutIndex s (curVertex s)" and "\<not> processCutVerts s"
    and "pfnPa s = PfnTriStrip" and "adj_inv s"
  shows "\<exists>s'. ProcessVerts_body s = Inr s' \<and>
     s' = s\<lparr>curIndex := 0, reverseWinding := False, adjExtraVert := -1,
             curVertex := u32 (curVertex s + 1) mod numVerts s,
             numRemainingVerts := numRemainingVerts s - 1\<rparr> \<and>
     batch_prims s' = batch_prims s \<and> since_cut {} s'"
proof -
  from assms(4,5) have a: "adjExtraVert s = -1"
    by (simp add: adj_inv_def)
  let ?s' = "s\<lparr>curIndex := 0, reverseWinding := False, adjExtraVert := -1,
             curVertex := u32 (curVertex s + 1) mod numVerts s,
             numRemainingVerts := numRemainingVerts s - 1\<rparr>"
  have "ProcessVerts_body s = Inr ?s'"
    using assms(1,2,3) a by (simp add: ProcessVerts_body_def RestartTopology_def)
  moreover have "batch_prims ?s' = batch_prims s"
    by (rule batch_prims_same) simp_all
  moreover have "since_cut {} ?s'"
    by (simp add: since_cut_def)
  ultimately show ?thesis by blast
qed

lemma strip_vertex_call:
  assumes "vertsPerPrim s = 3" and "numPrimsAssembled s < KNOB_SIMD_WIDTH" and "since_cut S s"
  shows "\<exists>s' new. ProcessVertTriStrip x False s = Inr s' \<and> since_cut (insert x S) s' \<and>
     batch_prims s' = batch_prims s @ new \<and>
     new = (if curIndex s < 2 then []
            else [if reverseWinding s then [vert s 0, x, vert s 1] else [vert s 0, vert s 1, x]]) \<and>
     curIndex s' = min 2 (curIndex s + 1) \<and> vert s' (curIndex s' - 1) = x \<and>
     reverseWinding s' = (if curIndex s < 2 then reverseWinding s else \<not> reverseWinding s) \<and>
     adjExtraVert s' = adjExtraVert s \<and> same_frame s s'"
proof -
  from assms(3) consider "curIndex s = 0" | "curIndex s = 1" | "curIndex s = 2"
    unfolding since_cut_def by arith
  then show ?thesis
  proof cases
    case 1
    let ?s' = "s\<lparr>vert := (vert s)(0 := x), curIndex := 1\<rparr>"
    have "ProcessVertTriStrip x False s = Inr ?s'"
      using 1 by (simp add: ProcessVertTriStrip_def MAX_NUM_VERTS_PER_PRIM_def Let_def)
    moreover have "batch_prims ?s' = batch_prims s"
      by (rule batch_prims_same) simp_all
    moreover have "since_cut (insert x S) ?s'"
      by (simp add: since_cut_def)
    ultimately show ?thesis
      using 1 by (simp add: same_frame_def)
  next
    case 2
    let ?s' = "s\<lparr>vert := (vert s)(1 := x), curIndex := 2\<rparr>"
    have "ProcessVertTriStrip x False s = Inr ?s'"
      using 2 by (simp add: ProcessVertTriStrip_def MAX_NUM_VERTS_PER_PRIM_def Let_def)
    moreover have "batch_prims ?s' = batch_prims s"
      by (rule batch_prims_same) simp_all
    moreover have "since_cut (insert x S) ?s'"
      using assms(3) 2 by (simp add: since_cut_def)
    ultimately show ?thesis
      using 2 by (simp add: same_frame_def)
  next
    case 3
    define y where "y = (if reverseWinding s then x else vert s 1)"
    define z where "z = (if reverseWinding s then vert s 1 else x)"
    define s' where "s' = s\<lparr>vert := (vert s)(2 := x, 0 := vert s 1, 1 := x),
        indices := (indices s)(0 := (indices s 0)(numPrimsAssembled s := vert s 0),
                               1 := (indices s 1)(numPrimsAssembled s := y),
                               2 := (indices s 2)(numPrimsAssembled s := z)),
        numPrimsAssembled := Suc (numPrimsAssembled s), curIndex := 2,
        reverseWinding := \<not> reverseWinding s\<rparr>"
    have "ProcessVertTriStrip x False s = Inr s'"
      using assms(2) 3
      by (simp add: ProcessVertTriStrip_def MAX_NUM_VERTS_PER_PRIM_def Let_def
            put_index_def s'_def y_def z_def)
    moreover have "batch_prims s' = batch_prims s @ [[vert s 0, y, z]]"
      by (rule batch_prims_emit) (simp_all add: s'_def assms(1))
    moreover have "since_cut (insert x S) s'"
      using assms(3) 3 by (simp add: since_cut_def s'_def)
    moreover have "same_frame s s'" "adjExtraVert s' = adjExtraVert s"
      by (simp_all add: same_frame_def s'_def)
    moreover have "curIndex s' = 2" "vert s' 1 = x" "reverseWinding s' = (\<not> reverseWinding s)"
      by (simp_all add: s'_def)
    ultimately show ?thesis
      using 3 by (simp add: y_def z_def)
  qed
qed

text \<open>
  \<open>cut_free_run s\<close>: the vertices before \<^verbatim>\<open>curVertex\<close> with no cut from them up to
  \<^verbatim>\<open>curVertex\<close>, that is the vertices taken since the last cut while the ring has not
  wrapped. \<open>spans_cut s p\<close>: a vertex marked cut is one of the vertices of the primitive
  \<open>p\<close> or lies between two of them.
\<close>

definition cut_free_run :: "PA_STATE_CUT \<Rightarrow> nat set" where
  "cut_free_run s =
     {v. v < curVertex s \<and> (\<forall>w. v \<le> w \<and> w < curVertex s \<longrightarrow> \<not> IsCutIndex s w)}"

definition spans_cut :: "PA_STATE_CUT \<Rightarrow> nat list \<Rightarrow> bool" where
  "spans_cut s p = (\<exists>v a b. IsCutIndex s v \<and> a \<in> set p \<and> b \<in> set p \<and> a \<le> v \<and> v \<le> b)"

text \<open>
  The invariant of the loop of \<^verbatim>\<open>ProcessVerts\<close> for a triangle strip, while the ring
  has not wrapped (\<^verbatim>\<open>curVertex\<close> is not past \<^verbatim>\<open>headVertex\<close>).
\<close>

definition strip_inv :: "PA_STATE_CUT \<Rightarrow> bool" where
  "strip_inv s =
     (pfnPa s = PfnTriStrip \<and> adjExtraVert s = -1 \<and> \<not> processCutVerts s \<and>
      vertsPerPrim s = 3 \<and> curVertex s \<le> headVertex s \<and> headVertex s < numVerts s \<and>
      numVerts s \<le> 2 ^ 32 \<and> numPrimsAssembled s \<le> KNOB_SIMD_WIDTH \<and>
      since_cut (cut_free_run s) s)"

lemma since_cut_mono: "since_cut S s \<Longrightarrow> S \<subseteq> T \<Longrightarrow> since_cut T s"
  by (auto simp: since_cut_def)

lemma since_cut_cursor [simp]:
  "since_cut S (s\<lparr>curVertex := a, numRemainingVerts := b\<rparr>) = since_cut S s"
  by (simp add: since_cut_def)

lemma IsCutIndex_cong: "pCutIndices t = pCutIndices s \<Longrightarrow> IsCutIndex t = IsCutIndex s"
  by (rule ext) (simp add: IsCutIndex_def)

lemma spans_cut_cong:
  assumes "pCutIndices t = pCutIndices s"
  shows "spans_cut t = spans_cut s"
  by (rule ext) (simp add: spans_cut_def IsCutIndex_cong [OF assms])

lemma cut_free_run_step:
  assumes "\<not> IsCutIndex s (curVertex s)" and "curVertex t = Suc (curVertex s)"
    and "pCutIndices t = pCutIndices s"
  shows "cut_free_run t = insert (curVertex s) (cut_free_run s)"
proof -
  have c: "IsCutIndex t = IsCutIndex s"
    by (rule IsCutIndex_cong [OF assms(3)])
  show ?thesis
    unfolding cut_free_run_def c assms(2)
    using assms(1) by (auto simp: less_Suc_eq)
qed

lemma no_span:
  assumes "set p \<subseteq> insert (curVertex s) (cut_free_run s)" and "\<not> IsCutIndex s (curVertex s)"
  shows "\<not> spans_cut s p"
proof
  assume "spans_cut s p"
  then obtain v a b where v: "IsCutIndex s v" "a \<in> set p" "b \<in> set p" "a \<le> v" "v \<le> b"
    unfolding spans_cut_def by blast
  from assms(1) v(3) have "b \<le> curVertex s"
    by (auto simp: cut_free_run_def)
  with v(5) have "v \<le> curVertex s" by simp
  moreover from v(1) assms(2) have "v \<noteq> curVertex s" by auto
  ultimately have vc: "v < curVertex s" by simp
  with v(4) have "a \<noteq> curVertex s" by simp
  with assms(1) v(2) have "a \<in> cut_free_run s" by auto
  then have "\<not> IsCutIndex s v"
    using v(4) vc by (simp add: cut_free_run_def)
  with v(1) show False by simp
qed

lemma body_strip:
  assumes inv: "strip_inv s" and c: "ProcessVerts_cond s"
  shows "\<exists>t new. ProcessVerts_body s = Inr t \<and> strip_inv t \<and> pCutIndices t = pCutIndices s \<and>
     batch_prims t = batch_prims s @ new \<and> (\<forall>p\<in>set new. \<not> spans_cut s p)"
proof -
  from inv have f: "pfnPa s = PfnTriStrip" "adjExtraVert s = -1" "\<not> processCutVerts s"
    "vertsPerPrim s = 3" "curVertex s \<le> headVertex s" "headVertex s < numVerts s"
    "numVerts s \<le> 2 ^ 32" "numPrimsAssembled s \<le> KNOB_SIMD_WIDTH"
    "since_cut (cut_free_run s) s"
    by (simp_all add: strip_inv_def)
  from c have a8: "numPrimsAssembled s < KNOB_SIMD_WIDTH" and ne: "curVertex s \<noteq> headVertex s"
    using f(8) by (simp_all add: ProcessVerts_cond_def)
  from ne f(5) have lt: "Suc (curVertex s) \<le> headVertex s" by simp
  have N0: "numVerts s \<noteq> 0" using f(6) by simp
  have "curVertex s + 1 < 2 ^ 32" using lt f(6,7) by simp
  then have "u32 (curVertex s + 1) = Suc (curVertex s)"
    by (simp add: u32_def)
  moreover have "Suc (curVertex s) mod numVerts s = Suc (curVertex s)"
    using lt f(6) by simp
  ultimately have nxt: "u32 (curVertex s + 1) mod numVerts s = Suc (curVertex s)"
    "u32 (Suc (curVertex s)) mod numVerts s = Suc (curVertex s)"
    by simp_all
  show ?thesis
  proof (cases "IsCutIndex s (curVertex s)")
    case True
    have ai: "adj_inv s" by (simp add: adj_inv_def f(2))
    from cut_vertex_step [OF N0 True f(3) f(1) ai] obtain t where t:
      "ProcessVerts_body s = Inr t"
      "t = s\<lparr>curIndex := 0, reverseWinding := False, adjExtraVert := -1,
             curVertex := u32 (curVertex s + 1) mod numVerts s,
             numRemainingVerts := numRemainingVerts s - 1\<rparr>"
      "batch_prims t = batch_prims s" "since_cut {} t"
      by blast
    have "since_cut (cut_free_run t) t"
      by (rule since_cut_mono [OF t(4)]) simp
    moreover have "pfnPa t = PfnTriStrip" "adjExtraVert t = -1" "\<not> processCutVerts t"
      "vertsPerPrim t = 3" "curVertex t \<le> headVertex t" "headVertex t < numVerts t"
      "numVerts t \<le> 2 ^ 32" "numPrimsAssembled t \<le> KNOB_SIMD_WIDTH" "pCutIndices t = pCutIndices s"
      using f lt by (simp_all add: t(2) nxt)
    ultimately have "strip_inv t" "pCutIndices t = pCutIndices s"
      by (simp_all add: strip_inv_def)
    moreover have "batch_prims t = batch_prims s @ []" using t(3) by simp
    moreover have "\<forall>p\<in>set []. \<not> spans_cut s p" by simp
    ultimately show ?thesis using t(1) by blast
  next
    case False
    from strip_vertex_call [OF f(4) a8 f(9), of "curVertex s"] obtain s' new where s':
      "ProcessVertTriStrip (curVertex s) False s = Inr s'"
      "since_cut (insert (curVertex s) (cut_free_run s)) s'"
      "batch_prims s' = batch_prims s @ new"
      "new = (if curIndex s < 2 then []
            else [if reverseWinding s then [vert s 0, curVertex s, vert s 1]
                  else [vert s 0, vert s 1, curVertex s]])"
      "adjExtraVert s' = adjExtraVert s" "same_frame s s'"
      by blast
    define t where "t = s'\<lparr>curVertex := u32 (curVertex s' + 1) mod numVerts s',
                       numRemainingVerts := numRemainingVerts s' - 1\<rparr>"
    have fr: "pCutIndices s' = pCutIndices s" "numVerts s' = numVerts s"
      "headVertex s' = headVertex s" "curVertex s' = curVertex s"
      "vertsPerPrim s' = vertsPerPrim s" "processCutVerts s' = processCutVerts s"
      "pfnPa s' = pfnPa s"
      using s'(6) by (simp_all add: same_frame_def)
    have body: "ProcessVerts_body s = Inr t"
      using False N0 s'(1) by (simp add: ProcessVerts_body_def f(1) t_def)
    have cur: "curVertex t = Suc (curVertex s)"
      by (simp add: t_def fr nxt)
    have pc: "pCutIndices t = pCutIndices s"
      by (simp add: t_def fr)
    have run: "cut_free_run t = insert (curVertex s) (cut_free_run s)"
      by (rule cut_free_run_step [OF False cur pc])
    have sc: "since_cut (cut_free_run t) t"
      unfolding run using s'(2) by (simp add: t_def)
    have np: "numPrimsAssembled s' \<le> KNOB_SIMD_WIDTH"
    proof -
      have "length (batch_prims s') \<le> Suc (length (batch_prims s))"
        by (simp add: s'(3,4))
      then have "numPrimsAssembled s' \<le> Suc (numPrimsAssembled s)"
        by (simp add: batch_prims_def NumPrims_def)
      with a8 show ?thesis by simp
    qed
    have "pfnPa t = PfnTriStrip" "adjExtraVert t = -1" "\<not> processCutVerts t"
      "vertsPerPrim t = 3" "curVertex t \<le> headVertex t" "headVertex t < numVerts t"
      "numVerts t \<le> 2 ^ 32" "numPrimsAssembled t \<le> KNOB_SIMD_WIDTH"
      using f lt np s'(5) by (simp_all add: t_def fr nxt)
    with sc have inv': "strip_inv t"
      by (simp add: strip_inv_def)
    have bp: "batch_prims t = batch_prims s @ new"
      using s'(3) by (simp add: t_def)
    have sub: "\<forall>p\<in>set new. set p \<subseteq> insert (curVertex s) (cut_free_run s)"
      using f(9) by (auto simp: s'(4) since_cut_def)
    have "\<forall>p\<in>set new. \<not> spans_cut s p"
    proof
      fix p assume "p \<in> set new"
      with sub have "set p \<subseteq> insert (curVertex s) (cut_free_run s)" by blast
      then show "\<not> spans_cut s p" by (rule no_span [OF _ False])
    qed
    with body inv' pc bp show ?thesis by blast
  qed
qed

lemma loop_strip:
  "strip_inv s \<Longrightarrow> \<exists>s' new. ProcessVerts_loop s = Inr s' \<and> strip_inv s' \<and>
     pCutIndices s' = pCutIndices s \<and>
     batch_prims s' = batch_prims s @ new \<and> (\<forall>p\<in>set new. \<not> spans_cut s p)"
proof (induction s rule: ProcessVerts_loop.induct)
  case (1 s)
  show ?case
  proof (cases "ProcessVerts_cond s")
    case True
    from body_strip [OF "1.prems" True] obtain t new where t:
      "ProcessVerts_body s = Inr t" "strip_inv t" "pCutIndices t = pCutIndices s"
      "batch_prims t = batch_prims s @ new" "\<forall>p\<in>set new. \<not> spans_cut s p"
      by blast
    from "1.IH" [OF True t(1) t(2)] obtain s' new' where s':
      "ProcessVerts_loop t = Inr s'" "strip_inv s'" "pCutIndices s' = pCutIndices t"
      "batch_prims s' = batch_prims t @ new'" "\<forall>p\<in>set new'. \<not> spans_cut t p"
      by blast
    have l: "ProcessVerts_loop s = Inr s'"
      using True t(1) s'(1) by (subst ProcessVerts_loop.simps) simp
    have sp: "spans_cut t = spans_cut s"
      by (rule spans_cut_cong [OF t(3)])
    have "batch_prims s' = batch_prims s @ (new @ new')"
      by (simp add: s'(4) t(4))
    moreover have "\<forall>p\<in>set (new @ new'). \<not> spans_cut s p"
      using t(5) s'(5) by (auto simp: sp)
    moreover have "pCutIndices s' = pCutIndices s"
      by (simp add: s'(3) t(3))
    ultimately show ?thesis using l s'(2) by blast
  next
    case False
    then have "ProcessVerts_loop s = Inr s"
      by (rule ProcessVerts_loop_stable)
    moreover have "batch_prims s = batch_prims s @ []" by simp
    moreover have "\<forall>p\<in>set []. \<not> spans_cut s p" by simp
    ultimately show ?thesis using "1.prems" by blast
  qed
qed

lemma ProcessVerts_strip:
  assumes "strip_inv s"
  shows "\<exists>s' new. ProcessVerts s = Inr s' \<and> strip_inv s' \<and>
     batch_prims s' = batch_prims s @ new \<and> (\<forall>p\<in>set new. \<not> spans_cut s p)"
proof -
  from loop_strip [OF assms] obtain s' new where l:
    "ProcessVerts_loop s = Inr s'" "strip_inv s'"
    "batch_prims s' = batch_prims s @ new" "\<forall>p\<in>set new. \<not> spans_cut s p"
    by blast
  from l(2) have "adjExtraVert s' = -1"
    by (simp add: strip_inv_def)
  then have "ProcessVerts s = Inr s'"
    by (simp add: ProcessVerts_def l(1))
  with l(2,3,4) show ?thesis by blast
qed

text \<open>
  The state the example starts from: the strip is constructed and its first batch fed
  with the mask 8.
\<close>

definition strip_cut_start :: PA_STATE_CUT where
  "strip_cut_start = projr
     (bindE (PA_STATE_CUT_init 48 (\<lambda>_. 0) 7 1 TOP_TRIANGLE_STRIP False False (\<lambda>_. 0) (\<lambda>_ _. 0) 0)
        (feed 8))"

text \<open>
  Claim C2. For the cut-aware assembler with the topology function of triangle
  strips, \<^verbatim>\<open>processCutVerts\<close> false:

  \<^item> In any state whose current vertex is marked cut, the iteration of the loop of
    \<^verbatim>\<open>ProcessVerts\<close> assembles no primitive and does not take the vertex into the
    strip: it resets the topology state (\<^verbatim>\<open>curIndex\<close> 0, \<^verbatim>\<open>reverseWinding\<close> false,
    \<^verbatim>\<open>adjExtraVert\<close> -1), moves to the next vertex and changes nothing else.
    (\<open>adj_inv\<close> holds in every reachable state and throughout the loop.)
  \<^item> The call the loop makes for a vertex \<open>x\<close> not marked cut: with fewer than two
    vertices in the strip it stores \<open>x\<close> as the next one and assembles nothing, so after
    a cut \<open>x\<close> is the first vertex of a fresh strip; with two it assembles one primitive
    of these two and \<open>x\<close>, the last two exchanged when the winding is reversed, and
    flips the winding. The vertices of the strip stay among those taken since the cut.
  \<^item> While the ring has not wrapped, \<^verbatim>\<open>ProcessVerts\<close> returns, and no primitive it
    assembles spans a cut: none has a vertex marked cut or vertices on both sides of
    one.
  \<^item> The strip 0, 1, 2, 3 with vertex 2 marked cut (mask 4 of the first batch), on the
    ring of 48 vertices: after the vertices 0, 1 and the cut vertex 2 no primitive is
    assembled and the topology state is reset; vertex 3 then becomes the first vertex
    of a fresh strip (\<^verbatim>\<open>vert[0]\<close> is 3, \<^verbatim>\<open>curIndex\<close> 1); \<^verbatim>\<open>Assemble\<close> returns true at the
    end of the draw with no primitive. With two more vertices, 0 to 5, the only
    primitive is 3, 4, 5, not reversed.
  \<^item> The strip 0 to 6 with vertex 3 marked cut (mask 8): the primitives are 0, 1, 2
    and 4, 5, 6, the second not reversed although the winding was reversed at the cut.
\<close>

theorem strip_cut_splits:
  "(numVerts s \<noteq> 0 \<and> IsCutIndex s (curVertex s) \<and> \<not> processCutVerts s \<and>
    pfnPa s = PfnTriStrip \<and> adj_inv s \<longrightarrow>
      (\<exists>s'. ProcessVerts_body s = Inr s' \<and>
         s' = s\<lparr>curIndex := 0, reverseWinding := False, adjExtraVert := -1,
                 curVertex := u32 (curVertex s + 1) mod numVerts s,
                 numRemainingVerts := numRemainingVerts s - 1\<rparr> \<and>
         batch_prims s' = batch_prims s \<and> since_cut {} s')) \<and>
   (vertsPerPrim t = 3 \<and> numPrimsAssembled t < KNOB_SIMD_WIDTH \<and> since_cut S t \<longrightarrow>
      (\<exists>t' new. ProcessVertTriStrip x False t = Inr t' \<and> since_cut (insert x S) t' \<and>
         batch_prims t' = batch_prims t @ new \<and>
         new = (if curIndex t < 2 then []
                else [if reverseWinding t then [vert t 0, x, vert t 1]
                      else [vert t 0, vert t 1, x]]) \<and>
         curIndex t' = min 2 (curIndex t + 1) \<and> vert t' (curIndex t' - 1) = x \<and>
         reverseWinding t' = (if curIndex t < 2 then reverseWinding t else \<not> reverseWinding t) \<and>
         adjExtraVert t' = adjExtraVert t \<and> same_frame t t')) \<and>
   (strip_inv r \<longrightarrow>
      (\<exists>r' new. ProcessVerts r = Inr r' \<and> strip_inv r' \<and>
         batch_prims r' = batch_prims r @ new \<and> (\<forall>p\<in>set new. \<not> spans_cut r p))) \<and>
   (\<exists>s s3 s4 out s5.
     bindE (PA_STATE_CUT_init 48 cuts 4 na TOP_TRIANGLE_STRIP False False v0 o0 u0) (feed 4) = Inr s \<and>
     IsCutIndex s 2 \<and>
     bindE (bindE (ProcessVerts_body s) ProcessVerts_body) ProcessVerts_body = Inr s3 \<and>
     numPrimsAssembled s3 = 0 \<and> curIndex s3 = 0 \<and> \<not> reverseWinding s3 \<and>
     adjExtraVert s3 = -1 \<and> curVertex s3 = 3 \<and>
     ProcessVerts_body s3 = Inr s4 \<and>
     numPrimsAssembled s4 = 0 \<and> curIndex s4 = 1 \<and> vert s4 0 = 3 \<and> \<not> reverseWinding s4 \<and>
     adjExtraVert s4 = -1 \<and>
     ProcessVerts s = Inr s4 \<and>
     Assemble mem szv slot s = Inr (True, out, s5) \<and> batch_prims s5 = []) \<and>
   (\<exists>s out s5.
     bindE (PA_STATE_CUT_init 48 cuts 6 na TOP_TRIANGLE_STRIP False False v0 o0 u0) (feed 4) = Inr s \<and>
     Assemble mem szv slot s = Inr (True, out, s5) \<and> batch_prims s5 = [[3, 4, 5]]) \<and>
   (\<exists>s s3 s4 out s5.
     bindE (PA_STATE_CUT_init 48 cuts 7 na TOP_TRIANGLE_STRIP False False v0 o0 u0) (feed 8) = Inr s \<and>
     IsCutIndex s 3 \<and>
     bindE (bindE (ProcessVerts_body s) ProcessVerts_body) ProcessVerts_body = Inr s3 \<and>
     batch_prims s3 = [[0, 1, 2]] \<and> curIndex s3 = 2 \<and> reverseWinding s3 \<and> curVertex s3 = 3 \<and>
     ProcessVerts_body s3 = Inr s4 \<and>
     batch_prims s4 = [[0, 1, 2]] \<and> curIndex s4 = 0 \<and> \<not> reverseWinding s4 \<and>
     adjExtraVert s4 = -1 \<and> curVertex s4 = 4 \<and>
     Assemble mem szv slot s = Inr (True, out, s5) \<and>
     batch_prims s5 = [[0, 1, 2], [4, 5, 6]])"
proof -
  have a: "numVerts s \<noteq> 0 \<and> IsCutIndex s (curVertex s) \<and> \<not> processCutVerts s \<and>
    pfnPa s = PfnTriStrip \<and> adj_inv s \<longrightarrow>
      (\<exists>s'. ProcessVerts_body s = Inr s' \<and>
         s' = s\<lparr>curIndex := 0, reverseWinding := False, adjExtraVert := -1,
                 curVertex := u32 (curVertex s + 1) mod numVerts s,
                 numRemainingVerts := numRemainingVerts s - 1\<rparr> \<and>
         batch_prims s' = batch_prims s \<and> since_cut {} s')"
  proof (intro impI, elim conjE)
    assume "numVerts s \<noteq> 0" "IsCutIndex s (curVertex s)" "\<not> processCutVerts s"
      "pfnPa s = PfnTriStrip" "adj_inv s"
    then show "\<exists>s'. ProcessVerts_body s = Inr s' \<and>
         s' = s\<lparr>curIndex := 0, reverseWinding := False, adjExtraVert := -1,
                 curVertex := u32 (curVertex s + 1) mod numVerts s,
                 numRemainingVerts := numRemainingVerts s - 1\<rparr> \<and>
         batch_prims s' = batch_prims s \<and> since_cut {} s'"
      by (rule cut_vertex_step)
  qed
  have b: "vertsPerPrim t = 3 \<and> numPrimsAssembled t < KNOB_SIMD_WIDTH \<and> since_cut S t \<longrightarrow>
      (\<exists>t' new. ProcessVertTriStrip x False t = Inr t' \<and> since_cut (insert x S) t' \<and>
         batch_prims t' = batch_prims t @ new \<and>
         new = (if curIndex t < 2 then []
                else [if reverseWinding t then [vert t 0, x, vert t 1]
                      else [vert t 0, vert t 1, x]]) \<and>
         curIndex t' = min 2 (curIndex t + 1) \<and> vert t' (curIndex t' - 1) = x \<and>
         reverseWinding t' = (if curIndex t < 2 then reverseWinding t else \<not> reverseWinding t) \<and>
         adjExtraVert t' = adjExtraVert t \<and> same_frame t t')"
  proof (intro impI, elim conjE)
    assume "vertsPerPrim t = 3" "numPrimsAssembled t < KNOB_SIMD_WIDTH" "since_cut S t"
    then show "\<exists>t' new. ProcessVertTriStrip x False t = Inr t' \<and> since_cut (insert x S) t' \<and>
         batch_prims t' = batch_prims t @ new \<and>
         new = (if curIndex t < 2 then []
                else [if reverseWinding t then [vert t 0, x, vert t 1]
                      else [vert t 0, vert t 1, x]]) \<and>
         curIndex t' = min 2 (curIndex t + 1) \<and> vert t' (curIndex t' - 1) = x \<and>
         reverseWinding t' = (if curIndex t < 2 then reverseWinding t else \<not> reverseWinding t) \<and>
         adjExtraVert t' = adjExtraVert t \<and> same_frame t t'"
      by (rule strip_vertex_call)
  qed
  have l: "strip_inv r \<longrightarrow>
      (\<exists>r' new. ProcessVerts r = Inr r' \<and> strip_inv r' \<and>
         batch_prims r' = batch_prims r @ new \<and> (\<forall>p\<in>set new. \<not> spans_cut r p))"
    by (intro impI) (rule ProcessVerts_strip)
  have c1: "\<exists>s s3 s4 out s5.
     bindE (PA_STATE_CUT_init 48 cuts 4 na TOP_TRIANGLE_STRIP False False v0 o0 u0) (feed 4) = Inr s \<and>
     IsCutIndex s 2 \<and>
     bindE (bindE (ProcessVerts_body s) ProcessVerts_body) ProcessVerts_body = Inr s3 \<and>
     numPrimsAssembled s3 = 0 \<and> curIndex s3 = 0 \<and> \<not> reverseWinding s3 \<and>
     adjExtraVert s3 = -1 \<and> curVertex s3 = 3 \<and>
     ProcessVerts_body s3 = Inr s4 \<and>
     numPrimsAssembled s4 = 0 \<and> curIndex s4 = 1 \<and> vert s4 0 = 3 \<and> \<not> reverseWinding s4 \<and>
     adjExtraVert s4 = -1 \<and>
     ProcessVerts s = Inr s4 \<and>
     Assemble mem szv slot s = Inr (True, out, s5) \<and> batch_prims s5 = []"
    by (simp add: init_defs pa_defs asm_defs)
  have c2: "\<exists>s out s5.
     bindE (PA_STATE_CUT_init 48 cuts 6 na TOP_TRIANGLE_STRIP False False v0 o0 u0) (feed 4) = Inr s \<and>
     Assemble mem szv slot s = Inr (True, out, s5) \<and> batch_prims s5 = [[3, 4, 5]]"
    by (simp add: init_defs pa_defs asm_defs)
  have c3: "\<exists>s s3 s4 out s5.
     bindE (PA_STATE_CUT_init 48 cuts 7 na TOP_TRIANGLE_STRIP False False v0 o0 u0) (feed 8) = Inr s \<and>
     IsCutIndex s 3 \<and>
     bindE (bindE (ProcessVerts_body s) ProcessVerts_body) ProcessVerts_body = Inr s3 \<and>
     batch_prims s3 = [[0, 1, 2]] \<and> curIndex s3 = 2 \<and> reverseWinding s3 \<and> curVertex s3 = 3 \<and>
     ProcessVerts_body s3 = Inr s4 \<and>
     batch_prims s4 = [[0, 1, 2]] \<and> curIndex s4 = 0 \<and> \<not> reverseWinding s4 \<and>
     adjExtraVert s4 = -1 \<and> curVertex s4 = 4 \<and>
     Assemble mem szv slot s = Inr (True, out, s5) \<and>
     batch_prims s5 = [[0, 1, 2], [4, 5, 6]]"
    by (simp add: init_defs pa_defs asm_defs)
  show ?thesis
    by (intro conjI a b l c1 c2 c3)
qed

theorem strip_cut_splits_witness:
  "strip_inv strip_cut_start \<and>
   (\<exists>s'. ProcessVerts strip_cut_start = Inr s' \<and> batch_prims s' = [[0, 1, 2], [4, 5, 6]]) \<and>
   \<not> spans_cut strip_cut_start [0, 1, 2] \<and> \<not> spans_cut strip_cut_start [4, 5, 6] \<and>
   spans_cut strip_cut_start [2, 3, 4] \<and>
   IsCutIndex strip_cut_state (curVertex strip_cut_state) \<and>
   reverseWinding strip_cut_state \<and> curIndex strip_cut_state = 2 \<and>
   (\<exists>s'. ProcessVerts_body strip_cut_state = Inr s' \<and> curIndex s' = 0 \<and>
      \<not> reverseWinding s' \<and> adjExtraVert s' = -1 \<and> curVertex s' = 4 \<and>
      batch_prims s' = [[0, 1, 2]] \<and> since_cut {} s') \<and>
   (\<exists>t'. ProcessVertTriStrip 4 False (projr (ProcessVerts_body strip_cut_state)) = Inr t' \<and>
      curIndex t' = 1 \<and> vert t' 0 = 4 \<and> \<not> reverseWinding t' \<and>
      batch_prims t' = [[0, 1, 2]] \<and> since_cut {4} t')"
proof -
  let ?t = "projr (ProcessVerts_body strip_cut_state)"
  note inst = strip_cut_splits [where s = strip_cut_state and r = strip_cut_start
      and t = ?t and S = "{}" and x = 4]
  have inv: "strip_inv strip_cut_start"
    by (simp add: strip_inv_def since_cut_def strip_cut_start_def init_defs pa_defs)
  have e: "\<exists>s'. ProcessVerts strip_cut_start = Inr s' \<and> batch_prims s' = [[0, 1, 2], [4, 5, 6]]"
    by (simp add: strip_cut_start_def init_defs pa_defs asm_defs)
  have b0: "batch_prims strip_cut_start = []"
    by (simp add: strip_cut_start_def init_defs pa_defs asm_defs)
  from inst inv obtain r' new where r:
    "ProcessVerts strip_cut_start = Inr r'"
    "batch_prims r' = batch_prims strip_cut_start @ new"
    "\<forall>p\<in>set new. \<not> spans_cut strip_cut_start p"
    by blast
  from e r(1,2) b0 have "new = [[0, 1, 2], [4, 5, 6]]"
    by simp
  with r(3) have n: "\<not> spans_cut strip_cut_start [0, 1, 2]" "\<not> spans_cut strip_cut_start [4, 5, 6]"
    by simp_all
  have "IsCutIndex strip_cut_start 3"
    by (simp add: strip_cut_start_def init_defs pa_defs)
  then have sp: "spans_cut strip_cut_start [2, 3, 4]"
    unfolding spans_cut_def by (intro exI [of _ 3] exI [of _ 2] exI [of _ 4]) simp
  have h: "numVerts strip_cut_state \<noteq> 0" "IsCutIndex strip_cut_state (curVertex strip_cut_state)"
    "\<not> processCutVerts strip_cut_state" "pfnPa strip_cut_state = PfnTriStrip"
    "adj_inv strip_cut_state" "reverseWinding strip_cut_state" "curIndex strip_cut_state = 2"
    "curVertex strip_cut_state = 3" "batch_prims strip_cut_state = [[0, 1, 2]]"
    by (simp_all add: strip_cut_state_def adj_inv_def init_defs pa_defs asm_defs)
  from inst h(1-5) obtain s' where s':
    "ProcessVerts_body strip_cut_state = Inr s'"
    "s' = strip_cut_state\<lparr>curIndex := 0, reverseWinding := False, adjExtraVert := -1,
                 curVertex := u32 (curVertex strip_cut_state + 1) mod numVerts strip_cut_state,
                 numRemainingVerts := numRemainingVerts strip_cut_state - 1\<rparr>"
    "batch_prims s' = batch_prims strip_cut_state" "since_cut {} s'"
    by blast
  have nv: "numVerts strip_cut_state = 48"
    by (simp add: strip_cut_state_def init_defs pa_defs asm_defs)
  have "curIndex s' = 0" "\<not> reverseWinding s'" "adjExtraVert s' = -1" "curVertex s' = 4"
    by (simp_all add: s'(2) h(8) nv u32_def)
  with s'(1,3,4) h(9) have cut:
    "\<exists>s'. ProcessVerts_body strip_cut_state = Inr s' \<and> curIndex s' = 0 \<and>
      \<not> reverseWinding s' \<and> adjExtraVert s' = -1 \<and> curVertex s' = 4 \<and>
      batch_prims s' = [[0, 1, 2]] \<and> since_cut {} s'"
    by simp
  have t: "?t = s'" by (simp add: s'(1))
  have ht: "vertsPerPrim ?t = 3" "numPrimsAssembled ?t < KNOB_SIMD_WIDTH" "since_cut {} ?t"
    "curIndex ?t = 0" "\<not> reverseWinding ?t" "batch_prims ?t = [[0, 1, 2]]"
    unfolding t using s'(3,4) h(9)
    by (simp_all add: s'(2) strip_cut_state_def init_defs pa_defs asm_defs)
  from inst ht(1-3) obtain t' new where t':
    "ProcessVertTriStrip 4 False ?t = Inr t'" "since_cut (insert 4 {}) t'"
    "batch_prims t' = batch_prims ?t @ new"
    "new = (if curIndex ?t < 2 then []
            else [if reverseWinding ?t then [vert ?t 0, 4, vert ?t 1]
                  else [vert ?t 0, vert ?t 1, 4]])"
    "curIndex t' = min 2 (curIndex ?t + 1)" "vert t' (curIndex t' - 1) = 4"
    "reverseWinding t' = (if curIndex ?t < 2 then reverseWinding ?t else \<not> reverseWinding ?t)"
    by blast
  have "curIndex t' = 1" using t'(5) ht(4) by simp
  moreover from this have "vert t' 0 = 4" using t'(6) by simp
  moreover have "\<not> reverseWinding t'" using t'(7) ht(4,5) by simp
  moreover have "batch_prims t' = [[0, 1, 2]]" using t'(3,4) ht(4,6) by simp
  moreover have "since_cut {4} t'" using t'(2) by simp
  ultimately have fresh:
    "\<exists>t'. ProcessVertTriStrip 4 False ?t = Inr t' \<and>
      curIndex t' = 1 \<and> vert t' 0 = 4 \<and> \<not> reverseWinding t' \<and>
      batch_prims t' = [[0, 1, 2]] \<and> since_cut {4} t'"
    using t'(1) by blast
  from inv e n sp h(2,6,7) cut fresh show ?thesis
    by (intro conjI)
qed


end
